theory Spec2Isabelle
  imports Main "HOL-Library.Sublist"
begin

section \<open>Python strings\<close>

text \<open>
  A Python \<^verbatim>\<open>str\<close> is a sequence of Unicode code points, and \<^verbatim>\<open>len\<close>, indexing and
  the regular expressions of \<^verbatim>\<open>subtitle_to_text.py\<close> all count code points. A string is
  therefore a list of code points (natural numbers); an ASCII literal is written
  \<open>ustr_of ''...''\<close>.
\<close>

type_synonym ustr = "nat list"

definition ustr_of :: "string \<Rightarrow> ustr" where
  "ustr_of cs = map of_char cs"

text \<open>The exceptions a run of the script can end with.\<close>

datatype py_error =
  IndexError | KeyError | AttributeError | TypeError | FileNotFoundError | OSError

section \<open>Unicode tables\<close>

text \<open>
  The whitespace of \<^verbatim>\<open>str.strip\<close>, \<^verbatim>\<open>str.isspace\<close> and of \<^verbatim>\<open>\s\<close> in a \<^verbatim>\<open>str\<close>
  pattern is the same finite set of code points; it is given in full.
\<close>

definition py_isspace :: "nat \<Rightarrow> bool" where
  "py_isspace c =
     ((0x09 \<le> c \<and> c \<le> 0x0d) \<or> (0x1c \<le> c \<and> c \<le> 0x20) \<or> c = 0x85 \<or> c = 0xa0 \<or>
      c = 0x1680 \<or> (0x2000 \<le> c \<and> c \<le> 0x200a) \<or> c = 0x2028 \<or> c = 0x2029 \<or>
      c = 0x202f \<or> c = 0x205f \<or> c = 0x3000)"

text \<open>The line boundaries of \<^verbatim>\<open>str.splitlines\<close>, also in full.\<close>

definition py_islinebreak :: "nat \<Rightarrow> bool" where
  "py_islinebreak c =
     ((0x0a \<le> c \<and> c \<le> 0x0d) \<or> (0x1c \<le> c \<and> c \<le> 0x1e) \<or> c = 0x85 \<or>
      c = 0x2028 \<or> c = 0x2029)"

text \<open>
  The case mappings of \<^verbatim>\<open>str.lower\<close> and \<^verbatim>\<open>str.upper\<close>, the test \<^verbatim>\<open>str.islower\<close>, the
  decimal digits that \<^verbatim>\<open>\d\<close> matches and the alphanumeric characters that, with the
  underscore, are the word characters of \<^verbatim>\<open>\b\<close> are tables of the Unicode database of the
  interpreter, over all of Unicode; the database is no part of the repository. The
  script is therefore modelled for an arbitrary database, which every function that
  consults it takes as its first argument. The three string methods are taken as they
  are, on strings: a lowercase or uppercase form can be longer than the string, and the
  lowercase of a letter can depend on its neighbours.
\<close>

record unicode_tables =
  str_lower :: "ustr \<Rightarrow> ustr"
  str_upper :: "ustr \<Rightarrow> ustr"
  str_islower :: "ustr \<Rightarrow> bool"
  is_decimal :: "nat \<Rightarrow> bool"
  is_alnum :: "nat \<Rightarrow> bool"

text \<open>The word characters of \<^verbatim>\<open>\b\<close>: the alphanumeric ones and the underscore.\<close>

definition word_char :: "unicode_tables \<Rightarrow> nat \<Rightarrow> bool" where
  "word_char U c = (is_alnum U c \<or> c = 0x5f)"

text \<open>
  Matching a literal under \<^verbatim>\<open>re.IGNORECASE\<close>: the compiler of \<^verbatim>\<open>re\<close> leaves a literal
  without case as it is; it lowers a cased literal with the simple lowercase mapping and
  adds the code points of its table of case-insensitive equivalents, and a character then
  matches when its simple lowercase is among them. The patterns of the script that are
  matched under the flag hold ASCII characters and CJK ideographs only. For these
  literals the tables below are complete: an ideograph has no case; of the characters
  outside ASCII only U+0130 and U+212A have an ASCII letter as simple lowercase; and the
  equivalents of the ASCII letters are the dotless i for \<^verbatim>\<open>i\<close> and the long s for \<^verbatim>\<open>s\<close>,
  which are their own lowercase.
\<close>

definition sre_tolower :: "nat \<Rightarrow> nat" where
  "sre_tolower c =
     (if 0x41 \<le> c \<and> c \<le> 0x5a then c + 32
      else if c = 0x130 then 0x69
      else if c = 0x212a then 0x6b
      else c)"

definition sre_toupper :: "nat \<Rightarrow> nat" where
  "sre_toupper c = (if 0x61 \<le> c \<and> c \<le> 0x7a then c - 32 else c)"

definition sre_iscased :: "nat \<Rightarrow> bool" where
  "sre_iscased c = (c \<noteq> sre_tolower c \<or> c \<noteq> sre_toupper c)"

definition sre_fixes :: "nat \<Rightarrow> nat list" where
  "sre_fixes lo =
     (if lo = 0x69 then [0x131] else if lo = 0x73 then [0x17f] else [])"

definition lit_match :: "bool \<Rightarrow> nat \<Rightarrow> nat \<Rightarrow> bool" where
  "lit_match ic av ch =
     (if ic \<and> sre_iscased av
      then sre_tolower ch \<in> set (sre_tolower av # sre_fixes (sre_tolower av))
      else ch = av)"

section \<open>String methods\<close>

definition py_lstrip :: "ustr \<Rightarrow> ustr" where
  "py_lstrip s = dropWhile py_isspace s"

definition py_rstrip :: "ustr \<Rightarrow> ustr" where
  "py_rstrip s = rev (dropWhile py_isspace (rev s))"

definition py_strip :: "ustr \<Rightarrow> ustr" where
  "py_strip s = py_rstrip (py_lstrip s)"

text \<open>\<^verbatim>\<open>sub in s\<close> for strings: \<open>sub\<close> is a contiguous part of \<open>s\<close>.\<close>

fun py_in :: "ustr \<Rightarrow> ustr \<Rightarrow> bool" where
  "py_in sub [] = (sub = [])"
| "py_in sub (c # cs) = (prefix sub (c # cs) \<or> py_in sub cs)"

text \<open>
  \<^verbatim>\<open>s.replace(old, new)\<close> for a non-empty \<open>old\<close> (the script replaces \<^verbatim>\<open>'\r\n'\<close> and
  \<^verbatim>\<open>'\r'\<close>): occurrences are taken from the left and do not overlap. The third argument
  counts the characters of a found occurrence that are still to be passed over.
\<close>

fun replace_from :: "ustr \<Rightarrow> ustr \<Rightarrow> ustr \<Rightarrow> ustr \<Rightarrow> ustr" where
  "replace_from old new [] [] = []"
| "replace_from old new [] (c # cs) =
     (if prefix old (c # cs) then new @ replace_from old new (tl old) cs
      else c # replace_from old new [] cs)"
| "replace_from old new (x # skip) [] = []"
| "replace_from old new (x # skip) (c # cs) = replace_from old new skip cs"

definition py_replace :: "ustr \<Rightarrow> ustr \<Rightarrow> ustr \<Rightarrow> ustr" where
  "py_replace old new s = replace_from old new [] s"

text \<open>\<^verbatim>\<open>s.split(sep)\<close> for a separator of one character.\<close>

fun py_split :: "nat \<Rightarrow> ustr \<Rightarrow> ustr list" where
  "py_split sep [] = [[]]"
| "py_split sep (c # cs) =
     (if c = sep then [] # py_split sep cs
      else (case py_split sep cs of [] \<Rightarrow> [[c]] | r # rs \<Rightarrow> (c # r) # rs))"

fun py_join :: "ustr \<Rightarrow> ustr list \<Rightarrow> ustr" where
  "py_join sep [] = []"
| "py_join sep [x] = x"
| "py_join sep (x # y # ys) = x @ sep @ py_join sep (y # ys)"

text \<open>
  \<^verbatim>\<open>s.splitlines()\<close>: the lines without their terminators, \<^verbatim>\<open>'\r\n'\<close> being one
  terminator, and no empty line after a final terminator. The first argument holds the
  current line, reversed.
\<close>

fun splitlines_from :: "ustr \<Rightarrow> ustr \<Rightarrow> ustr list" where
  "splitlines_from acc [] = (if acc = [] then [] else [rev acc])"
| "splitlines_from acc [c] = (if py_islinebreak c then [rev acc] else [rev (c # acc)])"
| "splitlines_from acc (c # d # cs) =
     (if c = 0x0d \<and> d = 0x0a then rev acc # splitlines_from [] cs
      else if py_islinebreak c then rev acc # splitlines_from [] (d # cs)
      else splitlines_from (c # acc) (d # cs))"

definition py_splitlines :: "ustr \<Rightarrow> ustr list" where
  "py_splitlines s = splitlines_from [] s"

text \<open>Indexing raises \<^verbatim>\<open>IndexError\<close> out of range; \<^verbatim>\<open>xs[-1]\<close> is the last element.\<close>

definition py_index :: "'a list \<Rightarrow> nat \<Rightarrow> py_error + 'a" where
  "py_index xs i = (if i < length xs then Inr (xs ! i) else Inl IndexError)"

definition py_last :: "'a list \<Rightarrow> py_error + 'a" where
  "py_last xs = (if xs = [] then Inl IndexError else Inr (last xs))"

text \<open>An exception ends the computation: the rest runs on a returned value only.\<close>

definition bind_result :: "py_error + 'a \<Rightarrow> ('a \<Rightarrow> py_error + 'b) \<Rightarrow> py_error + 'b" where
  "bind_result r f = (case r of Inl e \<Rightarrow> Inl e | Inr x \<Rightarrow> f x)"

fun map_result :: "('a \<Rightarrow> py_error + 'b) \<Rightarrow> 'a list \<Rightarrow> py_error + 'b list" where
  "map_result f [] = Inr []"
| "map_result f (x # xs) =
     bind_result (f x) (\<lambda>y. bind_result (map_result f xs) (\<lambda>ys. Inr (y # ys)))"

section \<open>Regular expressions\<close>

text \<open>
  The patterns of the script use literals, the dot, character classes, \<^verbatim>\<open>\s\<close>, \<^verbatim>\<open>\d\<close>,
  \<^verbatim>\<open>$\<close>, \<^verbatim>\<open>\b\<close>, concatenation, alternation, greedy and lazy repetition and capturing
  groups. \<^verbatim>\<open>re\<close> is a backtracking matcher: of all the ways a pattern matches at a
  position it takes the first in the order of its choices (the left alternative first, a
  greedy repetition longest first, a lazy one shortest first). A compiled \<^verbatim>\<open>\d\<close> holds
  the decimal digits and a compiled \<^verbatim>\<open>\b\<close> the word characters of the database it was
  compiled with.
\<close>

datatype rx =
    RLit nat
  | RDot
  | RCls "(nat \<times> nat) list"
  | RNCls "(nat \<times> nat) list"
  | RSpace
  | RDigit "nat \<Rightarrow> bool"
  | REol
  | RWordb "nat \<Rightarrow> bool"
  | REps
  | RSeq rx rx
  | RAlt rx rx
  | RStar rx
  | RLazyStar rx
  | RGrp nat rx

definition RPlus :: "rx \<Rightarrow> rx" where
  "RPlus a = RSeq a (RStar a)"

definition ROpt :: "rx \<Rightarrow> rx" where
  "ROpt a = RAlt a REps"

definition seqs :: "rx list \<Rightarrow> rx" where
  "seqs rs = foldr RSeq rs REps"

fun alts :: "rx list \<Rightarrow> rx" where
  "alts [] = RCls []"
| "alts [r] = r"
| "alts (r # rs) = RAlt r (alts rs)"

definition lits :: "ustr \<Rightarrow> rx" where
  "lits w = seqs (map RLit w)"

text \<open>
  A state of the matcher: the character before the position (for \<^verbatim>\<open>\b\<close>), the text
  still ahead, the characters consumed so far (the last one first) and the groups closed
  so far with their texts.
\<close>

datatype mstate =
  MState (prev: "nat option") (rest: ustr) (taken: ustr) (groups: "(nat \<times> ustr) list")

fun in_ranges :: "nat \<Rightarrow> (nat \<times> nat) list \<Rightarrow> bool" where
  "in_ranges c [] = False"
| "in_ranges c ((lo, hi) # rs) = ((lo \<le> c \<and> c \<le> hi) \<or> in_ranges c rs)"

fun step_char :: "(nat \<Rightarrow> bool) \<Rightarrow> mstate \<Rightarrow> mstate list" where
  "step_char P (MState p [] t g) = []"
| "step_char P (MState p (c # cs) t g) = (if P c then [MState (Some c) cs (c # t) g] else [])"

fun fresh :: "mstate \<Rightarrow> mstate" where
  "fresh (MState p r t g) = MState p r [] g"

fun reopen :: "ustr \<Rightarrow> mstate \<Rightarrow> mstate" where
  "reopen t0 (MState p r t g) = MState p r (t @ t0) g"

fun close_group :: "nat \<Rightarrow> ustr \<Rightarrow> mstate \<Rightarrow> mstate" where
  "close_group k t0 (MState p r t g) = MState p r (t @ t0) ((k, rev t) # g)"

fun progressed :: "mstate \<Rightarrow> bool" where
  "progressed (MState p r t g) = (t \<noteq> [])"

text \<open>
  Repetition of a body \<open>f\<close> from each of a list of states, in the order of the
  matcher's choices. A round of the body counts only when it consumed a character, so
  the text ahead bounds the number of rounds: it is the second argument.
\<close>

fun star_greedy :: "(mstate \<Rightarrow> mstate list) \<Rightarrow> ustr \<Rightarrow> mstate list \<Rightarrow> mstate list" where
  "star_greedy f [] sts = sts"
| "star_greedy f (x # fuel) [] = []"
| "star_greedy f (x # fuel) (st # sts) =
     star_greedy f fuel (map (reopen (taken st)) (filter progressed (f (fresh st)))) @ st #
     star_greedy f (x # fuel) sts"

fun star_lazy :: "(mstate \<Rightarrow> mstate list) \<Rightarrow> ustr \<Rightarrow> mstate list \<Rightarrow> mstate list" where
  "star_lazy f [] sts = sts"
| "star_lazy f (x # fuel) [] = []"
| "star_lazy f (x # fuel) (st # sts) =
     st # star_lazy f fuel (map (reopen (taken st)) (filter progressed (f (fresh st)))) @
     star_lazy f (x # fuel) sts"

fun word_before :: "(nat \<Rightarrow> bool) \<Rightarrow> nat option \<Rightarrow> bool" where
  "word_before W None = False"
| "word_before W (Some c) = W c"

fun word_ahead :: "(nat \<Rightarrow> bool) \<Rightarrow> ustr \<Rightarrow> bool" where
  "word_ahead W [] = False"
| "word_ahead W (c # cs) = W c"

text \<open>
  All the ways the pattern matches from a state, first choice first. The flag is
  \<^verbatim>\<open>re.IGNORECASE\<close>; the patterns matched under it hold no character class.
\<close>

fun ends :: "bool \<Rightarrow> rx \<Rightarrow> mstate \<Rightarrow> mstate list" where
  "ends ic (RLit c) st = step_char (lit_match ic c) st"
| "ends ic RDot st = step_char (\<lambda>c. c \<noteq> 0x0a) st"
| "ends ic (RCls rs) st = step_char (\<lambda>c. in_ranges c rs) st"
| "ends ic (RNCls rs) st = step_char (\<lambda>c. \<not> in_ranges c rs) st"
| "ends ic RSpace st = step_char py_isspace st"
| "ends ic (RDigit D) st = step_char D st"
| "ends ic REol st = (if rest st = [] \<or> rest st = [0x0a] then [st] else [])"
| "ends ic (RWordb W) st =
     (if word_before W (prev st) \<noteq> word_ahead W (rest st) then [st] else [])"
| "ends ic REps st = [st]"
| "ends ic (RSeq a b) st = concat (map (ends ic b) (ends ic a st))"
| "ends ic (RAlt a b) st = ends ic a st @ ends ic b st"
| "ends ic (RStar a) st = star_greedy (ends ic a) (rest st) [st]"
| "ends ic (RLazyStar a) st = star_lazy (ends ic a) (rest st) [st]"
| "ends ic (RGrp k a) st = map (close_group k (taken st)) (ends ic a (fresh st))"

fun first_match :: "mstate list \<Rightarrow> mstate option" where
  "first_match [] = None"
| "first_match (m # ms) = Some m"

definition match_at :: "bool \<Rightarrow> rx \<Rightarrow> nat option \<Rightarrow> ustr \<Rightarrow> mstate option" where
  "match_at ic p pv s = first_match (ends ic p (MState pv s [] []))"

text \<open>
  The scan shared by \<^verbatim>\<open>re.sub\<close> and \<^verbatim>\<open>re.split\<close>: from the left, the
  first match at the earliest position, then on from its end; after an empty match the
  next character is passed over. The result lists the matches and the characters
  outside them in text order. The fourth argument counts the characters of the current
  match that are still to be passed over.
\<close>

datatype piece = Keep nat | Match mstate

fun at_end :: "mstate option \<Rightarrow> piece list" where
  "at_end None = []"
| "at_end (Some m) = [Match m]"

fun decide :: "nat \<Rightarrow> mstate option \<Rightarrow> piece list \<times> ustr" where
  "decide c None = ([Keep c], [])"
| "decide c (Some (MState q r [] g)) = ([Match (MState q r [] g), Keep c], [])"
| "decide c (Some (MState q r (x # t) g)) = ([Match (MState q r (x # t) g)], t)"

fun scan :: "bool \<Rightarrow> rx \<Rightarrow> nat option \<Rightarrow> ustr \<Rightarrow> ustr \<Rightarrow> piece list" where
  "scan ic p pv [] [] = at_end (match_at ic p pv [])"
| "scan ic p pv [] (c # cs) =
     (case decide c (match_at ic p pv (c # cs)) of
        (out, skip) \<Rightarrow> out @ scan ic p (Some c) skip cs)"
| "scan ic p pv (x # skip) [] = []"
| "scan ic p pv (x # skip) (c # cs) = scan ic p (Some c) skip cs"

text \<open>\<^verbatim>\<open>re.search\<close> as a truth value: the pattern matches at some position.\<close>

fun search_from :: "bool \<Rightarrow> rx \<Rightarrow> nat option \<Rightarrow> ustr \<Rightarrow> bool" where
  "search_from ic p pv [] = (match_at ic p pv [] \<noteq> None)"
| "search_from ic p pv (c # cs) =
     (if match_at ic p pv (c # cs) \<noteq> None then True else search_from ic p (Some c) cs)"

definition re_search :: "bool \<Rightarrow> rx \<Rightarrow> ustr \<Rightarrow> bool" where
  "re_search ic p s = search_from ic p None s"

text \<open>\<^verbatim>\<open>re.sub\<close> with a replacement computed from the match.\<close>

fun emit :: "(mstate \<Rightarrow> ustr) \<Rightarrow> piece \<Rightarrow> ustr" where
  "emit repl (Keep c) = [c]"
| "emit repl (Match m) = repl m"

definition re_sub :: "bool \<Rightarrow> rx \<Rightarrow> (mstate \<Rightarrow> ustr) \<Rightarrow> ustr \<Rightarrow> ustr" where
  "re_sub ic p repl s = concat (map (emit repl) (scan ic p None [] s))"

text \<open>\<^verbatim>\<open>re.sub\<close> with a callable that may raise.\<close>

fun emit_call :: "(mstate \<Rightarrow> py_error + ustr) \<Rightarrow> piece \<Rightarrow> py_error + ustr" where
  "emit_call repl (Keep c) = Inr [c]"
| "emit_call repl (Match m) = repl m"

definition re_sub_call :: "bool \<Rightarrow> rx \<Rightarrow> (mstate \<Rightarrow> py_error + ustr) \<Rightarrow> ustr \<Rightarrow> py_error + ustr" where
  "re_sub_call ic p repl s =
     bind_result (map_result (emit_call repl) (scan ic p None [] s)) (\<lambda>parts. Inr (concat parts))"

text \<open>
  \<^verbatim>\<open>m.group(k)\<close> is \<^verbatim>\<open>None\<close> for a group that took no part in the match; in a
  replacement template \<^verbatim>\<open>\k\<close> is then the empty string.
\<close>

definition group :: "mstate \<Rightarrow> nat \<Rightarrow> ustr option" where
  "group m k = map_of (groups m) k"

definition template_group :: "mstate \<Rightarrow> nat \<Rightarrow> ustr" where
  "template_group m k = (case group m k of None \<Rightarrow> [] | Some g \<Rightarrow> g)"

text \<open>\<^verbatim>\<open>re.split\<close> for a pattern without groups: the texts between the matches.\<close>

fun split_pieces :: "ustr \<Rightarrow> piece list \<Rightarrow> ustr list" where
  "split_pieces acc [] = [rev acc]"
| "split_pieces acc (Keep c # ps) = split_pieces (c # acc) ps"
| "split_pieces acc (Match m # ps) = rev acc # split_pieces [] ps"

definition re_split :: "rx \<Rightarrow> ustr \<Rightarrow> ustr list" where
  "re_split p s = split_pieces [] (scan False p None [] s)"

section \<open>Language detection\<close>

definition lang_en :: ustr where "lang_en = ustr_of ''en''"
definition lang_zh_tw :: ustr where "lang_zh_tw = ustr_of ''zh_tw''"
definition lang_zh_cn :: ustr where "lang_zh_cn = ustr_of ''zh_cn''"
definition lang_auto :: ustr where "lang_auto = ustr_of ''auto''"

text \<open>The character class \<^verbatim>\<open>[\u4e00-\u9fff]\<close> of the CJK unified ideographs.\<close>

definition is_cjk :: "nat \<Rightarrow> bool" where
  "is_cjk c = (0x4e00 \<le> c \<and> c \<le> 0x9fff)"

definition traditional_indicators :: "nat list" where
  "traditional_indicators =
     [0x81fa, 0x7063, 0x7e41, 0x9ad4, 0x61c9, 0x70ba, 0x5011, 0x500b, 0x9019, 0x8aac]"

definition simplified_indicators :: "nat list" where
  "simplified_indicators =
     [0x53f0, 0x6e7e, 0x7b80, 0x4f53, 0x5e94, 0x4e3a, 0x4eec, 0x4e2a, 0x8fd9, 0x8bf4]"

text \<open>
  \<^verbatim>\<open>sum(1 for char in indicators if char in text)\<close>: one for every indicator that
  is a member of the text.
\<close>

definition indicator_count :: "nat list \<Rightarrow> ustr \<Rightarrow> nat" where
  "indicator_count indicators text = length (filter (\<lambda>char. char \<in> set text) indicators)"

text \<open>
  \<^verbatim>\<open>simplified_chars > len(text) * 0.3\<close> compares an integer with the double nearest
  to the product. The double \<open>0.3\<close> lies below 3/10 by a relative error of about
  \<open>3.7e-17\<close>, less than half a unit in the last place, so for every length below
  \<open>2^53\<close> the product rounds to 3n/10 exactly when that is an integer and stays strictly
  between the neighbouring integers otherwise: the comparison is that of
  \<open>10 * simplified_chars\<close> with \<open>3 * len(text)\<close>.
\<close>

definition detect_language :: "ustr \<Rightarrow> ustr" where
  "detect_language text =
     (if text = [] then lang_en
      else
        let simplified_chars = length (filter is_cjk text);
            traditional_count = indicator_count traditional_indicators text;
            simplified_count = indicator_count simplified_indicators text
        in if 3 * length text < 10 * simplified_chars
           then (if simplified_count < traditional_count then lang_zh_tw else lang_zh_cn)
           else lang_en)"

section \<open>The language profiles\<close>

record lang_config =
  cfg_sentence_end :: rx
  cfg_annotations :: "rx list"
  cfg_fix_capitalization :: bool
  cfg_space_join :: ustr

text \<open>\<^verbatim>\<open>[.!?][\s]*$\<close> and \<^verbatim>\<open>[\u3002\uff01\uff1f][\s]*$\<close>.\<close>

definition sentence_end_en :: rx where
  "sentence_end_en = seqs [RCls [(0x2e, 0x2e), (0x21, 0x21), (0x3f, 0x3f)], RStar RSpace, REol]"

definition sentence_end_zh :: rx where
  "sentence_end_zh =
     seqs [RCls [(0x3002, 0x3002), (0xff01, 0xff01), (0xff1f, 0xff1f)], RStar RSpace, REol]"

text \<open>
  \<^verbatim>\<open>\[(?:Music|Applause|Laughter|Inaudible|.*?)\]\<close> and
  \<^verbatim>\<open>\((?:Music|Applause|Laughter|Inaudible)\)\<close>.
\<close>

definition english_words :: "rx list" where
  "english_words =
     [lits (ustr_of ''Music''), lits (ustr_of ''Applause''), lits (ustr_of ''Laughter''),
      lits (ustr_of ''Inaudible'')]"

definition bracket_annotation :: "rx list \<Rightarrow> rx" where
  "bracket_annotation ws = seqs [RLit 0x5b, alts (ws @ [RLazyStar RDot]), RLit 0x5d]"

definition paren_annotation :: "rx list \<Rightarrow> rx" where
  "paren_annotation ws = seqs [RLit 0x28, alts ws, RLit 0x29]"

text \<open>The localized words of \<^verbatim>\<open>zh_tw\<close> and of \<^verbatim>\<open>zh_cn\<close>, as the source escapes them.\<close>

definition zh_tw_words :: "rx list" where
  "zh_tw_words =
     [lits [0x97f3, 0x6a02], lits [0x638c, 0x8072], lits [0x7b11, 0x8072],
      lits [0x7121, 0x6cd5, 0x807d, 0x6e05]]"

definition zh_cn_words :: "rx list" where
  "zh_cn_words =
     [lits [0x97f3, 0x4e50], lits [0x638c, 0x58f0], lits [0x7b11, 0x58f0],
      lits [0x65e0, 0x6cd5, 0x542c, 0x6e05]]"

definition LANGUAGE_CONFIGS :: "(ustr \<times> lang_config) list" where
  "LANGUAGE_CONFIGS =
     [(lang_en,
       \<lparr>cfg_sentence_end = sentence_end_en,
        cfg_annotations = [bracket_annotation english_words, paren_annotation english_words],
        cfg_fix_capitalization = True,
        cfg_space_join = ustr_of '' ''\<rparr>),
      (lang_zh_tw,
       \<lparr>cfg_sentence_end = sentence_end_zh,
        cfg_annotations =
          [bracket_annotation zh_tw_words, paren_annotation zh_tw_words,
           bracket_annotation english_words],
        cfg_fix_capitalization = False,
        cfg_space_join = []\<rparr>),
      (lang_zh_cn,
       \<lparr>cfg_sentence_end = sentence_end_zh,
        cfg_annotations =
          [bracket_annotation zh_cn_words, paren_annotation zh_cn_words,
           bracket_annotation english_words],
        cfg_fix_capitalization = False,
        cfg_space_join = []\<rparr>)]"

text \<open>
  \<^verbatim>\<open>LANGUAGE_CONFIGS.get(lang, LANGUAGE_CONFIGS['en'])\<close>: the default is looked up
  before \<^verbatim>\<open>get\<close> is called, and that lookup raises \<^verbatim>\<open>KeyError\<close> on a missing key.
\<close>

definition config_for :: "ustr \<Rightarrow> py_error + lang_config" where
  "config_for lang =
     (case map_of LANGUAGE_CONFIGS lang_en of
        None \<Rightarrow> Inl KeyError
      | Some dflt \<Rightarrow>
          Inr (case map_of LANGUAGE_CONFIGS lang of None \<Rightarrow> dflt | Some config \<Rightarrow> config))"

section \<open>Cleaning a caption\<close>

text \<open>\<^verbatim>\<open><v\s+[^>]*>\<close>, then \<^verbatim>\<open></?[^>]+>\<close>.\<close>

definition voice_tag :: rx where
  "voice_tag = seqs [RLit 0x3c, RLit 0x76, RPlus RSpace, RStar (RNCls [(0x3e, 0x3e)]), RLit 0x3e]"

definition any_tag :: rx where
  "any_tag = seqs [RLit 0x3c, ROpt (RLit 0x2f), RPlus (RNCls [(0x3e, 0x3e)]), RLit 0x3e]"

definition remove_subtitle_formatting :: "ustr \<Rightarrow> ustr" where
  "remove_subtitle_formatting text =
     re_sub False any_tag (\<lambda>m. []) (re_sub False voice_tag (\<lambda>m. []) text)"

definition remove_annotations :: "ustr \<Rightarrow> ustr \<Rightarrow> py_error + ustr" where
  "remove_annotations text lang =
     bind_result (config_for lang) (\<lambda>config.
       Inr (foldl (\<lambda>text pattern. re_sub True pattern (\<lambda>m. []) text) text
              (cfg_annotations config)))"

section \<open>Parsing a subtitle file\<close>

text \<open>
  What the script sees of its input: the path it is given, of which it uses the suffix
  (\<^verbatim>\<open>Path(sub_path).suffix\<close>, computed by \<^verbatim>\<open>pathlib\<close>), and the files, each with the
  text that \<^verbatim>\<open>read_text(encoding='utf-8', errors='replace')\<close> returns for it. What it
  prints is kept line by line. The paths that \<^verbatim>\<open>open(output_path, 'w')\<close> can open are
  given with the files: for any other path it raises \<^verbatim>\<open>OSError\<close> (a missing directory,
  a directory in the place of the file, a missing permission).
\<close>

record subtitle_path =
  path_name :: ustr
  path_suffix :: ustr

record world =
  files :: "ustr \<rightharpoonup> ustr"
  writable :: "ustr \<Rightarrow> bool"
  printed :: "ustr list"

definition fmt_auto :: ustr where "fmt_auto = ustr_of ''auto''"
definition fmt_vtt :: ustr where "fmt_vtt = ustr_of ''vtt''"
definition fmt_srt :: ustr where "fmt_srt = ustr_of ''srt''"

definition arrow :: ustr where "arrow = ustr_of ''-->''"
definition WEBVTT :: ustr where "WEBVTT = ustr_of ''WEBVTT''"
definition NOTE :: ustr where "NOTE = ustr_of ''NOTE''"

text \<open>\<^verbatim>\<open>\n\s*\n+\<close>.\<close>

definition blank_lines :: rx where
  "blank_lines = seqs [RLit 0x0a, RStar RSpace, RPlus (RLit 0x0a)]"

text \<open>\<^verbatim>\<open>\d{1,2}:\d{2}:\d{2}[.,]\d{3}\s*-->\s*\d{1,2}:\d{2}:\d{2}[.,]\d{3}\<close>.\<close>

definition timestamp :: "unicode_tables \<Rightarrow> rx" where
  "timestamp U =
     (let d = RDigit (is_decimal U) in
      seqs [d, ROpt d, RLit 0x3a, d, d, RLit 0x3a, d, d, RCls [(0x2e, 0x2e), (0x2c, 0x2c)], d, d, d])"

definition timestamp_re :: "unicode_tables \<Rightarrow> rx" where
  "timestamp_re U = seqs [timestamp U, RStar RSpace, lits arrow, RStar RSpace, timestamp U]"

definition normalize_newlines :: "ustr \<Rightarrow> ustr" where
  "normalize_newlines raw = py_replace [0x0d] [0x0a] (py_replace [0x0d, 0x0a] [0x0a] raw)"

definition detect_format :: "unicode_tables \<Rightarrow> ustr \<Rightarrow> ustr \<Rightarrow> ustr \<Rightarrow> ustr" where
  "detect_format U fmt suffix_of_path normalized =
     (if fmt = fmt_auto then
        (let ext = str_lower U suffix_of_path in
         if ext = ustr_of ''.vtt'' \<or> prefix WEBVTT (py_lstrip normalized) then fmt_vtt
         else if ext = ustr_of ''.srt'' \<or> py_in arrow normalized then fmt_srt
         else fmt_vtt)
      else fmt)"

text \<open>
  \<^verbatim>\<open>for i, line in enumerate(lines): if found(line): caption_text = lines[i+1:]; break\<close>,
  with \<^verbatim>\<open>caption_text\<close> empty when no line is found.
\<close>

fun lines_after :: "(ustr \<Rightarrow> bool) \<Rightarrow> ustr list \<Rightarrow> ustr list" where
  "lines_after found [] = []"
| "lines_after found (line # lines) = (if found line then lines else lines_after found lines)"

definition nonblank_lines :: "ustr \<Rightarrow> ustr list" where
  "nonblank_lines block = filter (\<lambda>ln. py_strip ln \<noteq> []) (py_split 0x0a block)"

text \<open>The end of both loops: the caption a block adds, if it adds one.\<close>

definition caption_of :: "ustr list \<Rightarrow> ustr list" where
  "caption_of caption_text =
     (if caption_text \<noteq> [] then
        (let text = remove_subtitle_formatting (py_join (ustr_of '' '') caption_text)
         in if py_strip text \<noteq> [] then [py_strip text] else [])
      else [])"

definition vtt_block :: "unicode_tables \<Rightarrow> ustr \<Rightarrow> py_error + ustr list" where
  "vtt_block U block =
     (let lines = nonblank_lines block in
      if lines = [] then Inr []
      else bind_result (py_index lines 0) (\<lambda>line0.
        if prefix WEBVTT line0 \<or> prefix NOTE line0 then Inr []
        else Inr (caption_of (lines_after (re_search False (timestamp_re U)) lines))))"

definition srt_block :: "ustr \<Rightarrow> py_error + ustr list" where
  "srt_block block =
     (let lines = nonblank_lines block in
      if lines = [] then Inr []
      else
        (let caption_text = lines_after (py_in arrow) lines in
         if caption_text = [] \<and> 2 \<le> length lines then
           bind_result (py_index lines 1) (\<lambda>line1.
             Inr (caption_of (if py_in arrow line1 then drop 2 lines else caption_text)))
         else Inr (caption_of caption_text)))"

fun blocks_loop :: "(ustr \<Rightarrow> py_error + ustr list) \<Rightarrow> ustr list \<Rightarrow> ustr list \<Rightarrow> py_error + ustr list" where
  "blocks_loop body captions [] = Inr captions"
| "blocks_loop body captions (block # blocks) =
     bind_result (body block) (\<lambda>added. blocks_loop body (captions @ added) blocks)"

definition parse_subtitle_file ::
  "unicode_tables \<Rightarrow> world \<Rightarrow> subtitle_path \<Rightarrow> ustr \<Rightarrow> py_error + ustr list \<times> ustr" where
  "parse_subtitle_file U w sub_path fmt =
     (case files w (path_name sub_path) of
        None \<Rightarrow> Inl FileNotFoundError
      | Some raw \<Rightarrow>
          (let normalized = normalize_newlines raw;
               blocks = re_split blank_lines normalized;
               detected = detect_format U fmt (path_suffix sub_path) normalized
           in bind_result
                (if detected = fmt_vtt then blocks_loop (vtt_block U) [] blocks
                 else if detected = fmt_srt then blocks_loop srt_block [] blocks
                 else Inr [])
                (\<lambda>captions. Inr (captions, detected))))"

section \<open>Deduplication and paragraphs\<close>

fun dedup_loop :: "unicode_tables \<Rightarrow> ustr list \<Rightarrow> ustr list \<Rightarrow> py_error + ustr list" where
  "dedup_loop U cleaned [] = Inr cleaned"
| "dedup_loop U cleaned (caption # captions) =
     bind_result (py_last cleaned) (\<lambda>kept.
       if str_lower U caption \<noteq> str_lower U kept then dedup_loop U (cleaned @ [caption]) captions
       else dedup_loop U cleaned captions)"

definition remove_duplicates :: "unicode_tables \<Rightarrow> ustr list \<Rightarrow> py_error + ustr list" where
  "remove_duplicates U captions =
     (if captions = [] then Inr captions
      else bind_result (py_index captions 0) (\<lambda>first. dedup_loop U [first] (drop 1 captions)))"

fun merge_loop :: "rx \<Rightarrow> ustr list \<Rightarrow> ustr list \<Rightarrow> ustr list \<Rightarrow> ustr list" where
  "merge_loop sentence_end paragraphs current [] =
     (if current \<noteq> [] then paragraphs @ [py_join [0x0a] current] else paragraphs)"
| "merge_loop sentence_end paragraphs current (cap # captions) =
     (if re_search False sentence_end cap
      then merge_loop sentence_end (paragraphs @ [py_join [0x0a] (current @ [cap])]) [] captions
      else merge_loop sentence_end paragraphs (current @ [cap]) captions)"

definition merge_into_paragraphs :: "ustr list \<Rightarrow> ustr \<Rightarrow> py_error + ustr list" where
  "merge_into_paragraphs captions lang =
     (if captions = [] then Inr []
      else bind_result (config_for lang) (\<lambda>config.
        Inr (merge_loop (cfg_sentence_end config) [] [] captions)))"

section \<open>Capitalization and spacing\<close>

text \<open>\<^verbatim>\<open>([.!?]\s+)([a-z])\<close>, \<^verbatim>\<open>\bi\b\<close> and \<^verbatim>\<open>\bi\'\<close>.\<close>

definition sentence_start :: rx where
  "sentence_start =
     RSeq (RGrp 1 (RSeq (RCls [(0x2e, 0x2e), (0x21, 0x21), (0x3f, 0x3f)]) (RPlus RSpace)))
          (RGrp 2 (RCls [(0x61, 0x7a)]))"

definition lone_i :: "unicode_tables \<Rightarrow> rx" where
  "lone_i U = seqs [RWordb (word_char U), RLit 0x69, RWordb (word_char U)]"

definition i_apostrophe :: "unicode_tables \<Rightarrow> rx" where
  "i_apostrophe U = seqs [RWordb (word_char U), RLit 0x69, RLit 0x27]"

text \<open>\<^verbatim>\<open>lambda m: m.group(1) + m.group(2).upper()\<close>.\<close>

definition upper_second :: "unicode_tables \<Rightarrow> mstate \<Rightarrow> py_error + ustr" where
  "upper_second U m =
     (case group m 2 of
        None \<Rightarrow> Inl AttributeError
      | Some g2 \<Rightarrow>
          (case group m 1 of None \<Rightarrow> Inl TypeError | Some g1 \<Rightarrow> Inr (g1 @ str_upper U g2)))"

text \<open>\<^verbatim>\<open>if text and text[0].islower(): text = text[0].upper() + text[1:]\<close>.\<close>

definition capitalize_first :: "unicode_tables \<Rightarrow> ustr \<Rightarrow> py_error + ustr" where
  "capitalize_first U text =
     (if text \<noteq> [] then
        bind_result (py_index text 0) (\<lambda>c.
          if str_islower U [c] then
            bind_result (py_index text 0) (\<lambda>c0. Inr (str_upper U [c0] @ drop 1 text))
          else Inr text)
      else Inr text)"

definition fix_capitalization :: "unicode_tables \<Rightarrow> ustr \<Rightarrow> ustr \<Rightarrow> py_error + ustr" where
  "fix_capitalization U text lang =
     bind_result (config_for lang) (\<lambda>config.
       if \<not> cfg_fix_capitalization config then Inr text
       else
         bind_result (capitalize_first U text) (\<lambda>text.
         bind_result (re_sub_call False sentence_start (upper_second U) text) (\<lambda>text.
           Inr (re_sub False (i_apostrophe U) (\<lambda>m. ustr_of ''I'' @ [0x27])
                  (re_sub False (lone_i U) (\<lambda>m. ustr_of ''I'') text)))))"

text \<open>
  The patterns of \<^verbatim>\<open>clean_spacing\<close>: \<^verbatim>\<open>([\u4e00-\u9fff])\s+([\u4e00-\u9fff])\<close>,
  \<^verbatim>\<open>[ \t]{2,}\<close>, \<^verbatim>\<open>[ \t]+([\uff0c\u3002\uff01\uff1f\u3001\uff1b\uff1a])\<close>, \<^verbatim>\<open>[ \t]+\<close>,
  \<^verbatim>\<open>[ \t]+([,.!?;:])\<close> and \<^verbatim>\<open>([,.!?;:])([A-Za-z])\<close>.
\<close>

definition blank :: rx where
  "blank = RCls [(0x20, 0x20), (0x09, 0x09)]"

definition cjk :: rx where
  "cjk = RCls [(0x4e00, 0x9fff)]"

definition cjk_gap :: rx where
  "cjk_gap = seqs [RGrp 1 cjk, RPlus RSpace, RGrp 2 cjk]"

definition blanks2 :: rx where
  "blanks2 = RSeq blank (RPlus blank)"

definition fullwidth_punct :: rx where
  "fullwidth_punct =
     RCls [(0xff0c, 0xff0c), (0x3002, 0x3002), (0xff01, 0xff01), (0xff1f, 0xff1f),
           (0x3001, 0x3001), (0xff1b, 0xff1b), (0xff1a, 0xff1a)]"

definition punct :: rx where
  "punct = RCls [(0x2c, 0x2c), (0x2e, 0x2e), (0x21, 0x21), (0x3f, 0x3f), (0x3b, 0x3b), (0x3a, 0x3a)]"

definition letter :: rx where
  "letter = RCls [(0x41, 0x5a), (0x61, 0x7a)]"

definition clean_line :: "ustr \<Rightarrow> ustr \<Rightarrow> ustr" where
  "clean_line lang line =
     (if py_strip line = [] then []
      else if lang \<in> set [lang_zh_tw, lang_zh_cn] then
        py_strip
          (re_sub False (RSeq (RPlus blank) (RGrp 1 fullwidth_punct)) (\<lambda>m. template_group m 1)
            (re_sub False blanks2 (\<lambda>m. ustr_of '' '')
              (re_sub False cjk_gap (\<lambda>m. template_group m 1 @ template_group m 2) line)))
      else
        py_strip
          (re_sub False (RSeq (RGrp 1 punct) (RGrp 2 letter))
             (\<lambda>m. template_group m 1 @ ustr_of '' '' @ template_group m 2)
            (re_sub False (RSeq (RPlus blank) (RGrp 1 punct)) (\<lambda>m. template_group m 1)
              (re_sub False (RPlus blank) (\<lambda>m. ustr_of '' '') line))))"

definition clean_spacing :: "ustr \<Rightarrow> ustr \<Rightarrow> ustr" where
  "clean_spacing text lang = py_strip (py_join [0x0a] (map (clean_line lang) (py_splitlines text)))"

section \<open>The conversion\<close>

fun finish_loop ::
  "unicode_tables \<Rightarrow> ustr \<Rightarrow> ustr list \<Rightarrow> ustr list \<Rightarrow> py_error + ustr list" where
  "finish_loop U lang cleaned_paragraphs [] = Inr cleaned_paragraphs"
| "finish_loop U lang cleaned_paragraphs (para # paragraphs) =
     bind_result (fix_capitalization U para lang) (\<lambda>para.
       let para = clean_spacing para lang
       in finish_loop U lang
            (if para \<noteq> [] then cleaned_paragraphs @ [para] else cleaned_paragraphs) paragraphs)"

definition print_line :: "ustr \<Rightarrow> world \<Rightarrow> world" where
  "print_line msg w = w\<lparr>printed := printed w @ [msg]\<rparr>"

text \<open>
  \<^verbatim>\<open>if lang == 'auto'\<close>: the language is detected from the first ten captions and
  reported.
\<close>

definition resolve_language :: "ustr \<Rightarrow> ustr list \<Rightarrow> world \<Rightarrow> ustr \<times> world" where
  "resolve_language lang captions w =
     (if lang = lang_auto then
        (let sample_text = py_join (ustr_of '' '') (take 10 captions);
             lang = detect_language sample_text
         in (lang, print_line ([0x1f310] @ ustr_of '' Detected language: '' @ lang) w))
      else (lang, w))"

text \<open>
  \<^verbatim>\<open>if output_path:\<close> holds for a path that is neither \<^verbatim>\<open>None\<close> nor the empty string.
  \<^verbatim>\<open>open(output_path, 'w')\<close> then raises \<^verbatim>\<open>OSError\<close> when the path cannot be opened for
  writing; otherwise the text is written to it and the path is reported.
\<close>

definition write_output :: "ustr option \<Rightarrow> ustr \<Rightarrow> world \<Rightarrow> py_error + world" where
  "write_output output_path final_text w =
     (case output_path of
        None \<Rightarrow> Inr w
      | Some out \<Rightarrow>
          if out = [] then Inr w
          else if \<not> writable w out then Inl OSError
          else Inr (print_line ([0x2705] @ ustr_of '' Converted text saved to: '' @ out)
                      (w\<lparr>files := (files w)(out \<mapsto> final_text)\<rparr>)))"

definition convert_subtitles_to_text ::
  "unicode_tables \<Rightarrow> world \<Rightarrow> subtitle_path \<Rightarrow> ustr option \<Rightarrow> ustr \<Rightarrow> ustr \<Rightarrow>
     py_error + ustr \<times> world" where
  "convert_subtitles_to_text U w sub_path output_path lang fmt =
     bind_result (parse_subtitle_file U w sub_path fmt) (\<lambda>(captions, detected_fmt).
       case resolve_language lang captions w of (lang, w) \<Rightarrow>
       let w = print_line ([0x1f4cb] @ ustr_of '' Detected subtitle format: '' @ detected_fmt) w in
       bind_result (map_result (\<lambda>c. remove_annotations c lang) captions) (\<lambda>captions.
       let captions = map py_strip (filter (\<lambda>c. py_strip c \<noteq> []) captions) in
       bind_result (remove_duplicates U captions) (\<lambda>captions.
       bind_result (merge_into_paragraphs captions lang) (\<lambda>paragraphs.
       bind_result (finish_loop U lang [] paragraphs) (\<lambda>cleaned_paragraphs.
       let final_text = py_join [0x0a, 0x0a] cleaned_paragraphs in
       bind_result (write_output output_path final_text w) (\<lambda>w.
         Inr (final_text, w)))))))"

text \<open>The alias kept for older callers.\<close>

definition convert_vtt_to_text ::
  "unicode_tables \<Rightarrow> world \<Rightarrow> subtitle_path \<Rightarrow> ustr option \<Rightarrow> ustr \<Rightarrow> py_error + ustr \<times> world" where
  "convert_vtt_to_text U w sub_path output_path lang =
     convert_subtitles_to_text U w sub_path output_path lang fmt_vtt"

section \<open>Notions and inputs of the properties\<close>

text \<open>
  The reading of the specification's words "counting occurrences of the indicator
  characters": every position of the sample that holds an indicator counts.
\<close>

definition occurrences :: "nat list \<Rightarrow> ustr \<Rightarrow> nat" where
  "occurrences indicators text = length (filter (\<lambda>c. c \<in> set indicators) text)"

definition detect_language_spec :: "ustr \<Rightarrow> ustr" where
  "detect_language_spec text =
     (if 3 * length text < 10 * length (filter is_cjk text)
      then (if occurrences simplified_indicators text < occurrences traditional_indicators text
            then lang_zh_tw else lang_zh_cn)
      else lang_en)"

text \<open>
  One round of the loop of \<^verbatim>\<open>remove_duplicates\<close>, with the first caption taken like the
  others: it is kept because nothing has been kept before it.
\<close>

definition keep_step :: "unicode_tables \<Rightarrow> ustr list \<Rightarrow> ustr \<Rightarrow> ustr list" where
  "keep_step U kept caption =
     (if kept \<noteq> [] \<and> str_lower U caption = str_lower U (last kept) then kept
      else kept @ [caption])"

text \<open>
  The stages of \<^verbatim>\<open>convert_subtitles_to_text\<close> between the parser and the output, which
  take the captions and the language to the final text.
\<close>

definition finished_text :: "unicode_tables \<Rightarrow> ustr list \<Rightarrow> ustr \<Rightarrow> py_error + ustr" where
  "finished_text U captions lang =
     bind_result (map_result (\<lambda>c. remove_annotations c lang) captions) (\<lambda>captions.
     bind_result (remove_duplicates U (map py_strip (filter (\<lambda>c. py_strip c \<noteq> []) captions)))
       (\<lambda>captions.
     bind_result (merge_into_paragraphs captions lang) (\<lambda>paragraphs.
     bind_result (finish_loop U lang [] paragraphs) (\<lambda>cleaned_paragraphs.
       Inr (py_join [0x0a, 0x0a] cleaned_paragraphs)))))"

text \<open>
  The output can be written: no output path is given (\<^verbatim>\<open>None\<close> or the empty string), or
  the path can be opened for writing.
\<close>

definition writes_ok :: "world \<Rightarrow> ustr option \<Rightarrow> bool" where
  "writes_ok w output_path =
     (case output_path of None \<Rightarrow> True | Some out \<Rightarrow> out = [] \<or> writable w out)"

text \<open>A text holds a bracketed part when a \<^verbatim>\<open>]\<close> follows a \<^verbatim>\<open>[\<close> somewhere in it.\<close>

fun has_bracketed :: "ustr \<Rightarrow> bool" where
  "has_bracketed [] = False"
| "has_bracketed (c # cs) = ((c = 0x5b \<and> 0x5d \<in> set cs) \<or> has_bracketed cs)"

text \<open>
  The reading of "every bracketed part \<^verbatim>\<open>[...]\<close> is deleted": going through the text
  from the left, a \<^verbatim>\<open>[\<close> that has a \<^verbatim>\<open>]\<close> somewhere after it opens a bracketed part,
  which ends with the first \<^verbatim>\<open>]\<close> after it; the bracketed parts are dropped, brackets
  included, and every other character is kept. The flag tells whether the position is
  inside a bracketed part.
\<close>

fun strip_from :: "bool \<Rightarrow> ustr \<Rightarrow> ustr" where
  "strip_from inside [] = []"
| "strip_from True (c # cs) = (if c = 0x5d then strip_from False cs else strip_from True cs)"
| "strip_from False (c # cs) =
     (if c = 0x5b \<and> 0x5d \<in> set cs then strip_from True cs else c # strip_from False cs)"

definition strip_brackets :: "ustr \<Rightarrow> ustr" where
  "strip_brackets s = strip_from False s"

text \<open>
  What the properties of concrete runs need of the Unicode database: its values on
  ASCII. On a string of ASCII characters \<^verbatim>\<open>lower\<close> and \<^verbatim>\<open>upper\<close> map the letters one by
  one and leave the rest; the lowercase ASCII characters are \<^verbatim>\<open>a\<close> to \<^verbatim>\<open>z\<close>, the decimal
  digits \<^verbatim>\<open>0\<close> to \<^verbatim>\<open>9\<close>, the alphanumeric ones the letters and the digits.
\<close>

definition ascii_lower :: "nat \<Rightarrow> nat" where
  "ascii_lower c = (if 0x41 \<le> c \<and> c \<le> 0x5a then c + 32 else c)"

definition ascii_upper :: "nat \<Rightarrow> nat" where
  "ascii_upper c = (if 0x61 \<le> c \<and> c \<le> 0x7a then c - 32 else c)"

definition is_ascii :: "ustr \<Rightarrow> bool" where
  "is_ascii s = list_all (\<lambda>c. c < 0x80) s"

definition agrees_on_ascii :: "unicode_tables \<Rightarrow> bool" where
  "agrees_on_ascii U =
     ((\<forall>s. is_ascii s \<longrightarrow> str_lower U s = map ascii_lower s \<and> str_upper U s = map ascii_upper s) \<and>
      (\<forall>c. c < 0x80 \<longrightarrow>
         str_islower U [c] = (0x61 \<le> c \<and> c \<le> 0x7a) \<and>
         is_decimal U c = (0x30 \<le> c \<and> c \<le> 0x39) \<and>
         is_alnum U c =
           ((0x30 \<le> c \<and> c \<le> 0x39) \<or> (0x41 \<le> c \<and> c \<le> 0x5a) \<or> (0x61 \<le> c \<and> c \<le> 0x7a))))"

text \<open>
  A database to run the properties with: the tables of Unicode for the code points below
  U+0100 (ASCII and Latin-1). It leaves every other code point as it is and takes it for
  neither a digit nor a letter; the runs below that use it stay below U+0100.
\<close>

definition latin1_islower :: "nat \<Rightarrow> bool" where
  "latin1_islower c =
     ((0x61 \<le> c \<and> c \<le> 0x7a) \<or> c = 0xaa \<or> c = 0xb5 \<or> c = 0xba \<or>
      (0xdf \<le> c \<and> c \<le> 0xff \<and> c \<noteq> 0xf7))"

definition latin1_isupper :: "nat \<Rightarrow> bool" where
  "latin1_isupper c = ((0x41 \<le> c \<and> c \<le> 0x5a) \<or> (0xc0 \<le> c \<and> c \<le> 0xde \<and> c \<noteq> 0xd7))"

definition latin1_lower :: "nat \<Rightarrow> nat" where
  "latin1_lower c = (if latin1_isupper c then c + 32 else c)"

definition latin1_upper :: "nat \<Rightarrow> ustr" where
  "latin1_upper c =
     (if (0x61 \<le> c \<and> c \<le> 0x7a) \<or> (0xe0 \<le> c \<and> c \<le> 0xfe \<and> c \<noteq> 0xf7) then [c - 32]
      else if c = 0xb5 then [0x39c]
      else if c = 0xdf then [0x53, 0x53]
      else if c = 0xff then [0x178]
      else [c])"

definition latin1_isalnum :: "nat \<Rightarrow> bool" where
  "latin1_isalnum c =
     ((0x30 \<le> c \<and> c \<le> 0x39) \<or> (0x41 \<le> c \<and> c \<le> 0x5a) \<or> (0x61 \<le> c \<and> c \<le> 0x7a) \<or>
      c = 0xaa \<or> c = 0xb2 \<or> c = 0xb3 \<or> c = 0xb5 \<or> c = 0xb9 \<or> c = 0xba \<or>
      (0xbc \<le> c \<and> c \<le> 0xbe) \<or> (0xc0 \<le> c \<and> c \<le> 0xff \<and> c \<noteq> 0xd7 \<and> c \<noteq> 0xf7))"

definition sample_tables :: unicode_tables where
  "sample_tables =
     \<lparr>str_lower = map latin1_lower,
      str_upper = (\<lambda>s. concat (map latin1_upper s)),
      str_islower = (\<lambda>s. list_ex latin1_islower s \<and> \<not> list_ex latin1_isupper s),
      is_decimal = (\<lambda>c. 0x30 \<le> c \<and> c \<le> 0x39),
      is_alnum = latin1_isalnum\<rparr>"

text \<open>
  An English VTT file of two cues, each in a block of its own after the header block.
\<close>

definition sample_vtt :: ustr where
  "sample_vtt =
     ustr_of ''WEBVTT'' @ [0x0a, 0x0a] @
     ustr_of ''00:00:00.000 --> 00:00:03.000'' @ [0x0a] @
     ustr_of ''Hello and welcome to this tutorial.'' @ [0x0a, 0x0a] @
     ustr_of ''00:00:03.000 --> 00:00:07.000'' @ [0x0a] @
     ustr_of ''Today we're going to learn about video text tracks.'' @ [0x0a]"

definition sample_path :: subtitle_path where
  "sample_path = \<lparr>path_name = ustr_of ''sample_en.vtt'', path_suffix = ustr_of ''.vtt''\<rparr>"

definition sample_world :: world where
  "sample_world =
     \<lparr>files = [ustr_of ''sample_en.vtt'' \<mapsto> sample_vtt], writable = (\<lambda>out. True), printed = []\<rparr>"

text \<open>Its two captions and its two cue blocks.\<close>

definition cue1 :: ustr where "cue1 = ustr_of ''Hello and welcome to this tutorial.''"
definition cue2 :: ustr where "cue2 = ustr_of ''Today we're going to learn about video text tracks.''"

definition block1 :: ustr where
  "block1 = ustr_of ''00:00:00.000 --> 00:00:03.000'' @ [0x0a] @ cue1"

definition block2 :: ustr where
  "block2 = ustr_of ''00:00:03.000 --> 00:00:07.000'' @ [0x0a] @ cue2 @ [0x0a]"

text \<open>An SRT cue with its index line, a VTT file of one cue, and files of one name.\<close>

definition srt_cue :: ustr where
  "srt_cue = ustr_of ''1'' @ [0x0a] @ ustr_of ''00:00:01,000 --> 00:00:02,000'' @ [0x0a] @ ustr_of ''Hi''"

definition vtt_body :: ustr where
  "vtt_body = ustr_of ''00:00:01.000 --> 00:00:02.000'' @ [0x0a] @ ustr_of ''Hi''"

definition vtt_cue :: ustr where
  "vtt_cue = ustr_of ''WEBVTT'' @ [0x0a, 0x0a] @ vtt_body"

definition one_file :: "string \<Rightarrow> ustr \<Rightarrow> world" where
  "one_file name content =
     \<lparr>files = [ustr_of name \<mapsto> content], writable = (\<lambda>out. True), printed = []\<rparr>"

definition path_of :: "string \<Rightarrow> string \<Rightarrow> subtitle_path" where
  "path_of name ext = \<lparr>path_name = ustr_of name, path_suffix = ustr_of ext\<rparr>"

section \<open>Properties of language detection\<close>

lemma indicator_count_card:
  "distinct indicators \<Longrightarrow> indicator_count indicators text = card (set indicators \<inter> set text)"
proof -
  assume d: "distinct indicators"
  have "set (filter (\<lambda>char. char \<in> set text) indicators) = set indicators \<inter> set text"
    by auto
  moreover have "distinct (filter (\<lambda>char. char \<in> set text) indicators)"
    using d by simp
  ultimately show ?thesis
    unfolding indicator_count_def by (metis distinct_card)
qed

lemma distinct_traditional: "distinct traditional_indicators"
  by (simp add: traditional_indicators_def)

lemma distinct_simplified: "distinct simplified_indicators"
  by (simp add: simplified_indicators_def)

text \<open>
  C3, as the code has it. The sample is Chinese when its ideographs exceed 30% of its
  length; the variant is then decided by how many of the ten indicator characters of
  each variant are present in the sample, each counted once however often it occurs
  (ties go to Simplified). Every other sample, the empty one included, is English, and
  no other code is ever returned.
\<close>

theorem detect_language_total:
  "detect_language text \<in> {lang_en, lang_zh_tw, lang_zh_cn} \<and>
   (3 * length text < 10 * length (filter is_cjk text) \<and>
      card (set simplified_indicators \<inter> set text) < card (set traditional_indicators \<inter> set text)
      \<longrightarrow> detect_language text = lang_zh_tw) \<and>
   (3 * length text < 10 * length (filter is_cjk text) \<and>
      \<not> card (set simplified_indicators \<inter> set text) < card (set traditional_indicators \<inter> set text)
      \<longrightarrow> detect_language text = lang_zh_cn) \<and>
   (\<not> 3 * length text < 10 * length (filter is_cjk text) \<longrightarrow> detect_language text = lang_en) \<and>
   detect_language [] = lang_en"
proof -
  have t: "indicator_count traditional_indicators text = card (set traditional_indicators \<inter> set text)"
    by (rule indicator_count_card [OF distinct_traditional])
  have s: "indicator_count simplified_indicators text = card (set simplified_indicators \<inter> set text)"
    by (rule indicator_count_card [OF distinct_simplified])
  show ?thesis
    unfolding detect_language_def Let_def t s by auto
qed

theorem detect_language_total_witness:
  "detect_language [0x9019, 0x500b, 0x4e2a, 0x41] = lang_zh_tw \<and>
   detect_language [0x9019, 0x4e2a, 0x41] = lang_zh_cn \<and>
   detect_language [0x9019, 0x41, 0x42, 0x43] = lang_en"
proof -
  have a1: "3 * length [0x9019, 0x500b, 0x4e2a, 0x41::nat]
      < 10 * length (filter is_cjk [0x9019, 0x500b, 0x4e2a, 0x41])"
    by (simp add: is_cjk_def)
  have b1: "card (set simplified_indicators \<inter> set [0x9019, 0x500b, 0x4e2a, 0x41::nat])
      < card (set traditional_indicators \<inter> set [0x9019, 0x500b, 0x4e2a, 0x41::nat])"
    by (simp add: simplified_indicators_def traditional_indicators_def)
  have a2: "3 * length [0x9019, 0x4e2a, 0x41::nat]
      < 10 * length (filter is_cjk [0x9019, 0x4e2a, 0x41])"
    by (simp add: is_cjk_def)
  have b2: "\<not> card (set simplified_indicators \<inter> set [0x9019, 0x4e2a, 0x41::nat])
      < card (set traditional_indicators \<inter> set [0x9019, 0x4e2a, 0x41::nat])"
    by (simp add: simplified_indicators_def traditional_indicators_def)
  have a3: "\<not> 3 * length [0x9019, 0x41, 0x42, 0x43::nat]
      < 10 * length (filter is_cjk [0x9019, 0x41, 0x42, 0x43])"
    by (simp add: is_cjk_def)
  from detect_language_total [of "[0x9019, 0x500b, 0x4e2a, 0x41]"] a1 b1
  have r1: "detect_language [0x9019, 0x500b, 0x4e2a, 0x41] = lang_zh_tw" by blast
  from detect_language_total [of "[0x9019, 0x4e2a, 0x41]"] a2 b2
  have r2: "detect_language [0x9019, 0x4e2a, 0x41] = lang_zh_cn" by blast
  from detect_language_total [of "[0x9019, 0x41, 0x42, 0x43]"] a3
  have r3: "detect_language [0x9019, 0x41, 0x42, 0x43] = lang_en" by blast
  from r1 r2 r3 show ?thesis by blast
qed

text \<open>
  C3 as the specification words it fails: in a sample of three copies of one Traditional
  indicator and one copy each of two Simplified indicators, the Traditional occurrences
  (3) exceed the Simplified ones (2), yet the code counts one indicator against two
  and answers Simplified.
\<close>

theorem detect_language_occurrences_counterexample:
  "3 * length [0x9019, 0x9019, 0x9019, 0x4e2a, 0x53f0::nat]
     < 10 * length (filter is_cjk [0x9019, 0x9019, 0x9019, 0x4e2a, 0x53f0]) \<and>
   occurrences simplified_indicators [0x9019, 0x9019, 0x9019, 0x4e2a, 0x53f0]
     < occurrences traditional_indicators [0x9019, 0x9019, 0x9019, 0x4e2a, 0x53f0] \<and>
   detect_language_spec [0x9019, 0x9019, 0x9019, 0x4e2a, 0x53f0] = lang_zh_tw \<and>
   detect_language [0x9019, 0x9019, 0x9019, 0x4e2a, 0x53f0] = lang_zh_cn \<and>
   lang_zh_cn \<noteq> lang_zh_tw"
  by (simp add: detect_language_def detect_language_spec_def occurrences_def
      indicator_count_def is_cjk_def traditional_indicators_def simplified_indicators_def
      lang_zh_cn_def lang_zh_tw_def ustr_of_def)

section \<open>Deduplication keeps no two adjacent equal captions\<close>

lemma dedup_loop_foldl:
  "cleaned \<noteq> [] \<Longrightarrow>
   dedup_loop U cleaned captions =
     Inr (foldl (\<lambda>kept caption.
                   if str_lower U caption \<noteq> str_lower U (last kept) then kept @ [caption] else kept)
            cleaned captions)"
  by (induction captions arbitrary: cleaned) (simp_all add: bind_result_def py_last_def)

lemma foldl_keep_nonempty:
  "cleaned \<noteq> [] \<Longrightarrow> foldl (keep_step U) cleaned captions \<noteq> []"
  by (induction captions arbitrary: cleaned) (simp_all add: keep_step_def)

lemma remove_duplicates_foldl:
  "remove_duplicates U captions = Inr (foldl (keep_step U) [] captions)"
proof (cases captions)
  case Nil
  then show ?thesis by (simp add: remove_duplicates_def)
next
  case (Cons c cs)
  have "foldl (\<lambda>kept caption.
                   if str_lower U caption \<noteq> str_lower U (last kept) then kept @ [caption] else kept) cl cs
      = foldl (keep_step U) cl cs" if "cl \<noteq> []" for cl
    using that by (induction cs arbitrary: cl) (simp_all add: keep_step_def)
  then show ?thesis
    using Cons by (simp add: remove_duplicates_def py_index_def bind_result_def dedup_loop_foldl keep_step_def)
qed

lemma distinct_adj_keep_step:
  "distinct_adj (map (str_lower U) kept) \<Longrightarrow> distinct_adj (map (str_lower U) (keep_step U kept caption))"
  by (auto simp: keep_step_def distinct_adj_append_iff last_map)

lemma distinct_adj_foldl_keep:
  "distinct_adj (map (str_lower U) kept) \<Longrightarrow> distinct_adj (map (str_lower U) (foldl (keep_step U) kept captions))"
  by (induction captions arbitrary: kept) (simp_all add: distinct_adj_keep_step)

text \<open>
  C4, for every Unicode database. Every caption sequence is deduplicated without an
  exception. A caption is dropped exactly when its lowercase form (\<^verbatim>\<open>str.lower\<close>, which is
  how the code compares without case) equals that of the last caption kept so far: taking
  one more caption \<open>c\<close> after \<open>captions\<close> leaves the result for \<open>captions\<close> as it is in
  that case and appends \<open>c\<close> otherwise. Hence no two neighbours of the result are equal
  up to case, and of \<open>a, b, a\<close> with \<open>a\<close> and \<open>b\<close> different up to case nothing is dropped.
\<close>

theorem remove_duplicates_chained:
  "\<exists>kept. remove_duplicates U captions = Inr kept \<and>
     (\<forall>i. Suc i < length kept \<longrightarrow> str_lower U (kept ! i) \<noteq> str_lower U (kept ! Suc i)) \<and>
     remove_duplicates U (captions @ [c]) =
       Inr (if kept \<noteq> [] \<and> str_lower U c = str_lower U (last kept) then kept else kept @ [c]) \<and>
     (str_lower U a \<noteq> str_lower U b \<longrightarrow> remove_duplicates U [a, b, a] = Inr [a, b, a])"
proof -
  have 1: "remove_duplicates U captions = Inr (foldl (keep_step U) [] captions)"
    by (rule remove_duplicates_foldl)
  have "distinct_adj (map (str_lower U) (foldl (keep_step U) [] captions))"
    by (rule distinct_adj_foldl_keep) simp
  then have 2: "\<forall>i. Suc i < length (foldl (keep_step U) [] captions) \<longrightarrow>
      str_lower U (foldl (keep_step U) [] captions ! i) \<noteq> str_lower U (foldl (keep_step U) [] captions ! Suc i)"
    by (auto simp: distinct_adj_conv_nth)
  have 3: "remove_duplicates U (captions @ [c]) = Inr (keep_step U (foldl (keep_step U) [] captions) c)"
    by (simp add: remove_duplicates_foldl)
  have 4: "str_lower U a \<noteq> str_lower U b \<longrightarrow> remove_duplicates U [a, b, a] = Inr [a, b, a]"
    by (auto simp: remove_duplicates_foldl keep_step_def)
  from 1 2 3 4 show ?thesis
    unfolding keep_step_def by blast
qed

section \<open>Paragraphs partition the captions\<close>





lemma config_for_total: "\<exists>config. config_for lang = Inr config"
  by (simp add: config_for_def LANGUAGE_CONFIGS_def split: option.splits)



section \<open>The alias and repeated runs\<close>

text \<open>
  C8. The deprecated entry point returns, and does to the files and the output, what the
  general entry point does with the format set to \<^verbatim>\<open>'vtt'\<close>, for every input path,
  output path and language option.
\<close>

theorem alias_is_vtt:
  "convert_vtt_to_text U w sub_path output_path lang =
     convert_subtitles_to_text U w sub_path output_path lang fmt_vtt"
  by (simp add: convert_vtt_to_text_def)

lemma parse_depends_on_file:
  "files w1 (path_name sub_path) = files w2 (path_name sub_path) \<Longrightarrow>
   parse_subtitle_file U w1 sub_path fmt = parse_subtitle_file U w2 sub_path fmt"
  by (simp add: parse_subtitle_file_def)

lemma resolve_language_fst:
  "fst (resolve_language lang captions w1) = fst (resolve_language lang captions w2)"
  by (simp add: resolve_language_def Let_def)

lemma resolve_language_writable:
  "writable (snd (resolve_language lang captions w)) = writable w"
  by (simp add: resolve_language_def Let_def print_line_def)

lemma write_output_result:
  "map_sum id (\<lambda>w'. final_text) (write_output output_path final_text w) =
     (if writes_ok w output_path then Inr final_text else Inl OSError)"
  by (simp add: write_output_def writes_ok_def split: option.splits)

lemma write_output_writable:
  "write_output output_path final_text w = Inr w' \<Longrightarrow> writable w' = writable w"
  by (auto simp: write_output_def print_line_def split: option.splits if_splits)

lemma convert_unfold:
  "convert_subtitles_to_text U w sub_path output_path lang fmt =
     bind_result (parse_subtitle_file U w sub_path fmt) (\<lambda>(captions, detected_fmt).
       bind_result (finished_text U captions (fst (resolve_language lang captions w))) (\<lambda>final_text.
       bind_result
         (write_output output_path final_text
            (print_line ([0x1f4cb] @ ustr_of '' Detected subtitle format: '' @ detected_fmt)
               (snd (resolve_language lang captions w))))
         (\<lambda>w'. Inr (final_text, w'))))"
  by (auto simp: convert_subtitles_to_text_def finished_text_def bind_result_def Let_def
      split: sum.splits prod.splits)

lemma writes_ok_printed:
  "writes_ok (print_line msg (snd (resolve_language lang captions w))) output_path =
     writes_ok w output_path"
  by (simp add: writes_ok_def print_line_def resolve_language_writable split: option.splits)

text \<open>
  The text a run returns: that of the stages, unless the output cannot be written.
\<close>

lemma convert_text:
  "map_sum id fst (convert_subtitles_to_text U w sub_path output_path lang fmt) =
     bind_result (parse_subtitle_file U w sub_path fmt) (\<lambda>(captions, detected_fmt).
       bind_result (finished_text U captions (fst (resolve_language lang captions w))) (\<lambda>final_text.
         if writes_ok w output_path then Inr final_text else Inl OSError))"
proof (cases "parse_subtitle_file U w sub_path fmt")
  case (Inl e)
  then show ?thesis by (simp add: convert_unfold bind_result_def)
next
  case (Inr parsed)
  obtain captions detected_fmt where parsed: "parsed = (captions, detected_fmt)"
    by (cases parsed)
  show ?thesis
  proof (cases "finished_text U captions (fst (resolve_language lang captions w))")
    case (Inl e)
    with Inr parsed show ?thesis by (simp add: convert_unfold bind_result_def)
  next
    case f: (Inr final_text)
    let ?w = "print_line ([0x1f4cb] @ ustr_of '' Detected subtitle format: '' @ detected_fmt)
               (snd (resolve_language lang captions w))"
    have "map_sum id fst (bind_result (write_output output_path final_text ?w)
             (\<lambda>w'. Inr (final_text, w'))) =
          map_sum id (\<lambda>w'. final_text) (write_output output_path final_text ?w)"
      by (cases "write_output output_path final_text ?w") (simp_all add: bind_result_def)
    also have "\<dots> = (if writes_ok w output_path then Inr final_text else Inl OSError)"
      by (simp only: write_output_result writes_ok_printed)
    finally show ?thesis
      using Inr parsed f by (simp add: convert_unfold bind_result_def)
  qed
qed

lemma convert_writable:
  assumes "convert_subtitles_to_text U w sub_path output_path lang fmt = Inr (final_text, w')"
  shows "writable w' = writable w \<and> writes_ok w output_path"
proof -
  from assms obtain captions detected_fmt t where
    wr: "write_output output_path t
           (print_line ([0x1f4cb] @ ustr_of '' Detected subtitle format: '' @ detected_fmt)
              (snd (resolve_language lang captions w))) = Inr w'"
    unfolding convert_unfold
    by (auto simp: bind_result_def split: sum.splits prod.splits)
  from write_output_writable [OF wr] have 1: "writable w' = writable w"
    by (simp add: print_line_def resolve_language_writable)
  from assms have "map_sum id fst (convert_subtitles_to_text U w sub_path output_path lang fmt) =
      Inr final_text" by simp
  then have 2: "writes_ok w output_path"
    unfolding convert_text by (auto simp: bind_result_def split: sum.splits prod.splits if_splits)
  from 1 2 show ?thesis ..
qed

text \<open>
  C9. The returned text depends on the content of the input file, the path suffix and
  the two options only: two runs that read the same content, and of which both or
  neither can write their output, return the same text (or raise the same exception),
  whatever else differs in the files, in what was printed before and in the output path;
  in particular a second run after a first one that left the input file as it was
  returns the text of the first.
\<close>

theorem conversion_deterministic:
  "(files w1 (path_name sub_path) = files w2 (path_name sub_path) \<and>
    writes_ok w1 out1 = writes_ok w2 out2 \<longrightarrow>
      map_sum id fst (convert_subtitles_to_text U w1 sub_path out1 lang fmt) =
      map_sum id fst (convert_subtitles_to_text U w2 sub_path out2 lang fmt)) \<and>
   (convert_subtitles_to_text U w1 sub_path out1 lang fmt = Inr (text, w1') \<and>
    files w1' (path_name sub_path) = files w1 (path_name sub_path) \<longrightarrow>
      (\<exists>w1''. convert_subtitles_to_text U w1' sub_path out1 lang fmt = Inr (text, w1'')))"
proof -
  have a: "map_sum id fst (convert_subtitles_to_text U u sub_path o1 lang fmt) =
      map_sum id fst (convert_subtitles_to_text U v sub_path o2 lang fmt)"
    if "files u (path_name sub_path) = files v (path_name sub_path)"
      and "writes_ok u o1 = writes_ok v o2" for u v o1 o2
    unfolding convert_text parse_depends_on_file [OF that(1)] resolve_language_fst [of lang _ u v]
      that(2) ..
  have b: "\<exists>w1''. convert_subtitles_to_text U w1' sub_path out1 lang fmt = Inr (text, w1'')"
    if r: "convert_subtitles_to_text U w1 sub_path out1 lang fmt = Inr (text, w1')"
      and f: "files w1' (path_name sub_path) = files w1 (path_name sub_path)"
  proof -
    from convert_writable [OF r] have "writes_ok w1' out1 = writes_ok w1 out1"
      by (simp add: writes_ok_def split: option.splits)
    from a [OF f this] r
    have "map_sum id fst (convert_subtitles_to_text U w1' sub_path out1 lang fmt) = Inr text"
      by simp
    then show ?thesis
      by (cases "convert_subtitles_to_text U w1' sub_path out1 lang fmt") auto
  qed
  from a b show ?thesis by blast
qed

section \<open>No stage raises\<close>

lemma map_result_total:
  "\<forall>x \<in> set xs. \<exists>y. f x = Inr y \<Longrightarrow> \<exists>ys. map_result f xs = Inr ys"
proof (induction xs)
  case Nil
  then show ?case by simp
next
  case (Cons x xs)
  then obtain y ys where "f x = Inr y" "map_result f xs = Inr ys" by auto
  then show ?case by (simp add: bind_result_def)
qed

lemma vtt_block_total: "\<exists>added. vtt_block U block = Inr added"
  by (cases "nonblank_lines block") (simp_all add: vtt_block_def Let_def py_index_def bind_result_def)

lemma srt_block_total: "\<exists>added. srt_block block = Inr added"
  by (cases "nonblank_lines block") (simp_all add: srt_block_def Let_def py_index_def bind_result_def)

lemma blocks_loop_total:
  "\<forall>block. \<exists>added. body block = Inr added \<Longrightarrow> \<exists>captions'. blocks_loop body captions blocks = Inr captions'"
proof (induction blocks arbitrary: captions)
  case Nil
  then show ?case by simp
next
  case (Cons block blocks)
  from Cons.prems obtain added where "body block = Inr added" by blast
  with Cons show ?case by (simp add: bind_result_def)
qed

lemma parse_total:
  assumes "files w (path_name sub_path) = Some raw"
  shows "\<exists>captions. parse_subtitle_file U w sub_path fmt =
           Inr (captions, detect_format U fmt (path_suffix sub_path) (normalize_newlines raw))"
proof -
  obtain c1 where c1: "blocks_loop (vtt_block U) [] (re_split blank_lines (normalize_newlines raw)) = Inr c1"
    using blocks_loop_total [of "vtt_block U"] vtt_block_total by blast
  obtain c2 where c2: "blocks_loop srt_block [] (re_split blank_lines (normalize_newlines raw)) = Inr c2"
    using blocks_loop_total [of srt_block] srt_block_total by blast
  show ?thesis
    using assms by (simp add: parse_subtitle_file_def Let_def bind_result_def c1 c2)
qed

lemma remove_annotations_total: "\<exists>text'. remove_annotations text lang = Inr text'"
proof -
  obtain config where "config_for lang = Inr config" using config_for_total by blast
  then show ?thesis by (simp add: remove_annotations_def bind_result_def)
qed

lemma dedup_loop_total: "cleaned \<noteq> [] \<Longrightarrow> \<exists>kept. dedup_loop U cleaned captions = Inr kept"
  by (induction captions arbitrary: cleaned) (simp_all add: bind_result_def py_last_def)

lemma remove_duplicates_total: "\<exists>kept. remove_duplicates U captions = Inr kept"
  by (cases captions) (simp_all add: remove_duplicates_def py_index_def bind_result_def dedup_loop_total)

lemma merge_into_paragraphs_total: "\<exists>paragraphs. merge_into_paragraphs captions lang = Inr paragraphs"
proof -
  obtain config where "config_for lang = Inr config" using config_for_total by blast
  then show ?thesis by (simp add: merge_into_paragraphs_def bind_result_def)
qed

lemma decide_match:
  "decide c found = (out, skip) \<Longrightarrow> Match m \<in> set out \<Longrightarrow> found = Some m"
  by (induction c found rule: decide.induct) auto

lemma scan_matches:
  "Match m \<in> set (scan ic p pv skip s) \<Longrightarrow> \<exists>pv' s'. match_at ic p pv' s' = Some m"
proof (induction ic p pv skip s rule: scan.induct)
  case (1 ic p pv)
  then show ?case by (cases "match_at ic p pv []") auto
next
  case (2 ic p pv c cs)
  obtain out skip where d: "decide c (match_at ic p pv (c # cs)) = (out, skip)"
    by (cases "decide c (match_at ic p pv (c # cs))")
  from "2.prems" d have "Match m \<in> set out \<or> Match m \<in> set (scan ic p (Some c) skip cs)"
    by simp
  then show ?case
  proof
    assume "Match m \<in> set out"
    with d have "match_at ic p pv (c # cs) = Some m" by (rule decide_match)
    then show ?thesis by blast
  next
    assume "Match m \<in> set (scan ic p (Some c) skip cs)"
    with "2.IH" [OF d [symmetric]] show ?thesis .
  qed
next
  case (3 ic p pv x skip)
  then show ?case by simp
next
  case (4 ic p pv x skip c cs)
  then show ?case by simp
qed

lemma first_match_in: "first_match ms = Some m \<Longrightarrow> m \<in> set ms"
  by (cases ms) auto

lemma groups_close_group: "groups (close_group k t0 x) = (k, rev (taken x)) # groups x"
  by (cases x) simp

lemma groups_fresh: "groups (fresh x) = groups x"
  by (cases x) simp

lemma step_char_groups: "y \<in> set (step_char P x) \<Longrightarrow> groups y = groups x"
  by (induction P x rule: step_char.induct) (auto split: if_splits)

lemma sentence_start_groups:
  assumes "match_at ic sentence_start pv s = Some m"
  shows "\<exists>g1 g2. group m 1 = Some g1 \<and> group m 2 = Some g2"
proof -
  from assms have "m \<in> set (ends ic sentence_start (MState pv s [] []))"
    by (simp add: match_at_def first_match_in)
  then obtain m1 y x where
    m1: "m1 = close_group 1 [] x" and
    y: "y \<in> set (step_char (\<lambda>c. in_ranges c [(0x61, 0x7a)]) (fresh m1))" and
    m: "m = close_group 2 (taken m1) y"
    by (auto simp: sentence_start_def)
  from y have "groups y = groups m1" by (simp add: step_char_groups groups_fresh)
  with m m1 have "groups m = (2, rev (taken y)) # (1, rev (taken x)) # groups x"
    by (simp add: groups_close_group)
  then show ?thesis by (simp add: group_def)
qed

lemma upper_second_total:
  "match_at ic sentence_start pv s = Some m \<Longrightarrow> \<exists>r. upper_second U m = Inr r"
  using sentence_start_groups [of ic pv s m] by (auto simp: upper_second_def)

lemma emit_call_upper_total:
  "piece \<in> set (scan ic sentence_start pv skip s) \<Longrightarrow> \<exists>r. emit_call (upper_second U) piece = Inr r"
proof (cases piece)
  case (Keep c)
  then show ?thesis by simp
next
  case (Match m)
  assume "piece \<in> set (scan ic sentence_start pv skip s)"
  with Match obtain pv' s' where "match_at ic sentence_start pv' s' = Some m"
    using scan_matches by blast
  with Match show ?thesis by (simp add: upper_second_total)
qed

lemma capitalize_first_total: "\<exists>text'. capitalize_first U text = Inr text'"
  by (cases "text") (simp_all add: capitalize_first_def py_index_def bind_result_def)

lemma fix_capitalization_total: "\<exists>text'. fix_capitalization U text lang = Inr text'"
proof -
  obtain config where config: "config_for lang = Inr config" using config_for_total by blast
  obtain t1 where t1: "capitalize_first U text = Inr t1" using capitalize_first_total by blast
  obtain parts where "map_result (emit_call (upper_second U)) (scan False sentence_start None [] t1) = Inr parts"
    using map_result_total [of "scan False sentence_start None [] t1" "emit_call (upper_second U)"]
      emit_call_upper_total by blast
  then have "\<exists>t2. re_sub_call False sentence_start (upper_second U) t1 = Inr t2"
    by (simp add: re_sub_call_def bind_result_def)
  then obtain t2 where t2: "re_sub_call False sentence_start (upper_second U) t1 = Inr t2" by blast
  show ?thesis
    by (simp add: fix_capitalization_def config t1 t2 bind_result_def)
qed

lemma finish_loop_total: "\<exists>out. finish_loop U lang cleaned paragraphs = Inr out"
proof (induction paragraphs arbitrary: cleaned)
  case Nil
  then show ?case by simp
next
  case (Cons para paragraphs)
  obtain p' where "fix_capitalization U para lang = Inr p'" using fix_capitalization_total by blast
  with Cons show ?case by (simp add: bind_result_def Let_def)
qed

lemma finished_text_total: "\<exists>text. finished_text U captions lang = Inr text"
proof -
  obtain c1 where c1: "map_result (\<lambda>c. remove_annotations c lang) captions = Inr c1"
    using map_result_total [of captions "\<lambda>c. remove_annotations c lang"] remove_annotations_total
    by blast
  obtain c2 where c2: "remove_duplicates U (map py_strip (filter (\<lambda>c. py_strip c \<noteq> []) c1)) = Inr c2"
    using remove_duplicates_total by blast
  obtain ps where ps: "merge_into_paragraphs c2 lang = Inr ps"
    using merge_into_paragraphs_total by blast
  obtain out where out: "finish_loop U lang [] ps = Inr out"
    using finish_loop_total by blast
  show ?thesis by (simp add: finished_text_def c1 c2 ps out bind_result_def)
qed


text \<open>The one exception of a run that has read its input: the output cannot be written.\<close>

lemma convert_unwritable:
  assumes "files w (path_name sub_path) = Some raw" and "\<not> writes_ok w output_path"
  shows "convert_subtitles_to_text U w sub_path output_path lang fmt = Inl OSError"
proof -
  obtain captions d where p: "parse_subtitle_file U w sub_path fmt = Inr (captions, d)"
    using parse_total [OF assms(1)] by blast
  obtain final_text where
    "finished_text U captions (fst (resolve_language lang captions w)) = Inr final_text"
    using finished_text_total by blast
  then have "map_sum id fst (convert_subtitles_to_text U w sub_path output_path lang fmt) =
      Inl OSError"
    using assms(2) by (simp add: convert_text p bind_result_def)
  then show ?thesis
    by (cases "convert_subtitles_to_text U w sub_path output_path lang fmt") auto
qed

lemma lang_codes_distinct:
  "lang_en \<noteq> lang_zh_tw" "lang_en \<noteq> lang_zh_cn" "lang_zh_tw \<noteq> lang_zh_cn"
  "lang_en \<noteq> lang_auto" "lang_zh_tw \<noteq> lang_auto" "lang_zh_cn \<noteq> lang_auto"
  by (simp_all add: lang_en_def lang_zh_tw_def lang_zh_cn_def lang_auto_def ustr_of_def)








lemma finished_text_nil: "finished_text U [] lang = Inr []"
  by (simp add: finished_text_def bind_result_def remove_duplicates_def merge_into_paragraphs_def)

lemma fmt_codes_distinct:
  "fmt_vtt \<noteq> fmt_srt" "fmt_vtt \<noteq> fmt_auto" "fmt_srt \<noteq> fmt_auto"
  by (simp_all add: fmt_vtt_def fmt_srt_def fmt_auto_def ustr_of_def)





section \<open>Format detection\<close>

lemma webvtt_header_survives:
  assumes "prefix WEBVTT raw"
  shows "prefix WEBVTT (py_lstrip (normalize_newlines raw))"
proof -
  from assms obtain r where "raw = WEBVTT @ r" by (auto simp: prefix_def)
  then show ?thesis
    by (simp add: WEBVTT_def ustr_of_def normalize_newlines_def py_replace_def py_lstrip_def
        py_isspace_def)
qed

lemma parse_by_detected:
  assumes "files w (path_name sub_path) = Some raw"
    and "detect_format U fmt (path_suffix sub_path) (normalize_newlines raw) =
         detect_format U fmt' (path_suffix sub_path) (normalize_newlines raw)"
  shows "parse_subtitle_file U w sub_path fmt = parse_subtitle_file U w sub_path fmt'"
  using assms by (simp add: parse_subtitle_file_def Let_def)

lemma detect_format_given:
  "detect_format U fmt_vtt suffix_of_path normalized = fmt_vtt"
  "detect_format U fmt_srt suffix_of_path normalized = fmt_srt"
  using fmt_codes_distinct by (simp_all add: detect_format_def)

text \<open>
  C2, as the code has it. With the format hint \<^verbatim>\<open>auto\<close>, a file whose content starts
  with \<^verbatim>\<open>WEBVTT\<close> is parsed as VTT whatever its suffix is: the result is that of the
  hint \<^verbatim>\<open>vtt\<close>, and the format reported is \<^verbatim>\<open>vtt\<close>. A file whose lowercased suffix
  is not \<^verbatim>\<open>.vtt\<close> and whose content, with line endings normalized and leading whitespace
  stripped, does not start with \<^verbatim>\<open>WEBVTT\<close> but holds \<^verbatim>\<open>-->\<close> is parsed as SRT: the
  result is that of the hint \<^verbatim>\<open>srt\<close>, and the format reported is \<^verbatim>\<open>srt\<close>.
\<close>

theorem format_detection:
  assumes "files w (path_name sub_path) = Some raw"
  shows "(prefix WEBVTT raw \<longrightarrow>
            parse_subtitle_file U w sub_path fmt_auto = parse_subtitle_file U w sub_path fmt_vtt \<and>
            (\<exists>captions. parse_subtitle_file U w sub_path fmt_auto = Inr (captions, fmt_vtt))) \<and>
         (str_lower U (path_suffix sub_path) \<noteq> ustr_of ''.vtt'' \<and>
          \<not> prefix WEBVTT (py_lstrip (normalize_newlines raw)) \<and>
          py_in arrow (normalize_newlines raw) \<longrightarrow>
            parse_subtitle_file U w sub_path fmt_auto = parse_subtitle_file U w sub_path fmt_srt \<and>
            (\<exists>captions. parse_subtitle_file U w sub_path fmt_auto = Inr (captions, fmt_srt)))"
proof -
  obtain captions where p: "parse_subtitle_file U w sub_path fmt_auto =
      Inr (captions, detect_format U fmt_auto (path_suffix sub_path) (normalize_newlines raw))"
    using parse_total [OF assms] by blast
  have 1: "detect_format U fmt_auto (path_suffix sub_path) (normalize_newlines raw) = fmt_vtt"
    if "prefix WEBVTT raw"
    using webvtt_header_survives [OF that] by (simp add: detect_format_def Let_def)
  have 2: "detect_format U fmt_auto (path_suffix sub_path) (normalize_newlines raw) = fmt_srt"
    if "str_lower U (path_suffix sub_path) \<noteq> ustr_of ''.vtt''"
      "\<not> prefix WEBVTT (py_lstrip (normalize_newlines raw))"
      "py_in arrow (normalize_newlines raw)"
    using that by (simp add: detect_format_def Let_def)
  have 3: "parse_subtitle_file U w sub_path fmt_auto = parse_subtitle_file U w sub_path fmt_vtt"
    if "prefix WEBVTT raw"
    by (rule parse_by_detected [OF assms]) (simp add: 1 [OF that] detect_format_given)
  have 4: "parse_subtitle_file U w sub_path fmt_auto = parse_subtitle_file U w sub_path fmt_srt"
    if "str_lower U (path_suffix sub_path) \<noteq> ustr_of ''.vtt''"
      "\<not> prefix WEBVTT (py_lstrip (normalize_newlines raw))"
      "py_in arrow (normalize_newlines raw)"
    by (rule parse_by_detected [OF assms]) (simp add: 2 [OF that] detect_format_given)
  have 5: "\<exists>captions. parse_subtitle_file U w sub_path fmt_auto = Inr (captions, fmt_vtt)"
    if "prefix WEBVTT raw"
    using p 1 [OF that] by simp
  have 6: "\<exists>captions. parse_subtitle_file U w sub_path fmt_auto = Inr (captions, fmt_srt)"
    if "str_lower U (path_suffix sub_path) \<noteq> ustr_of ''.vtt''"
      "\<not> prefix WEBVTT (py_lstrip (normalize_newlines raw))"
      "py_in arrow (normalize_newlines raw)"
    using p 2 [OF that] by simp
  from 3 4 5 6 show ?thesis by blast
qed

section \<open>Bracketed annotations\<close>

lemma subseq_set: "subseq a b \<Longrightarrow> set a \<subseteq> set b"
  by (auto dest: list_emb_set)

lemma has_bracketed_iff:
  "has_bracketed t \<longleftrightarrow> (\<exists>pre mid post. t = pre @ [0x5b] @ mid @ [0x5d] @ post)"
proof (induction t)
  case Nil
  then show ?case by simp
next
  case (Cons c cs)
  show ?case
  proof
    assume "has_bracketed (c # cs)"
    then consider "c = 0x5b" "0x5d \<in> set cs" | "has_bracketed cs" by auto
    then show "\<exists>pre mid post. c # cs = pre @ [0x5b] @ mid @ [0x5d] @ post"
    proof cases
      case 1
      then obtain mid post where "cs = mid @ 0x5d # post" by (auto simp: in_set_conv_decomp)
      with 1 have "c # cs = [] @ [0x5b] @ mid @ [0x5d] @ post" by simp
      then show ?thesis by blast
    next
      case 2
      with Cons obtain pre mid post where "cs = pre @ [0x5b] @ mid @ [0x5d] @ post" by blast
      then have "c # cs = (c # pre) @ [0x5b] @ mid @ [0x5d] @ post" by simp
      then show ?thesis by blast
    qed
  next
    assume "\<exists>pre mid post. c # cs = pre @ [0x5b] @ mid @ [0x5d] @ post"
    then obtain pre mid post where e: "c # cs = pre @ [0x5b] @ mid @ [0x5d] @ post" by blast
    show "has_bracketed (c # cs)"
    proof (cases pre)
      case Nil
      with e show ?thesis by auto
    next
      case (Cons a pre')
      with e have "cs = pre' @ [0x5b] @ mid @ [0x5d] @ post" by simp
      with Cons.IH show ?thesis by auto
    qed
  qed
qed

lemma has_bracketed_subseq: "subseq a b \<Longrightarrow> has_bracketed a \<Longrightarrow> has_bracketed b"
proof (induction rule: list_emb.induct)
  case (list_emb_Nil ys)
  then show ?case by simp
next
  case (list_emb_Cons xs ys y)
  then show ?case by simp
next
  case (list_emb_Cons2 x y xs ys)
  then have "set xs \<subseteq> set ys" by (simp add: subseq_set)
  with list_emb_Cons2 show ?case by auto
qed

lemma decide_cases:
  assumes "decide c found = (out, skip)"
  shows "(found = None \<and> out = [Keep c] \<and> skip = []) \<or>
         (\<exists>m. found = Some m \<and> taken m = [] \<and> out = [Match m, Keep c] \<and> skip = []) \<or>
         (\<exists>m x. found = Some m \<and> taken m = x # skip \<and> out = [Match m])"
  using assms by (induction c found rule: decide.induct) auto

lemma scan_deletion_subseq:
  "subseq (concat (map (emit (\<lambda>m. [])) (scan ic p pv skip s))) s"
proof (induction ic p pv skip s rule: scan.induct)
  case (1 ic p pv)
  then show ?case by (cases "match_at ic p pv []") simp_all
next
  case (2 ic p pv c cs)
  obtain out skip where d: "decide c (match_at ic p pv (c # cs)) = (out, skip)"
    by (cases "decide c (match_at ic p pv (c # cs))")
  let ?r = "concat (map (emit (\<lambda>m. [])) (scan ic p (Some c) skip cs))"
  have ih: "subseq ?r cs" by (rule "2.IH" [OF d [symmetric]])
  have e: "concat (map (emit (\<lambda>m. [])) (scan ic p pv [] (c # cs))) =
      concat (map (emit (\<lambda>m. [])) out) @ ?r"
    using d by simp
  from decide_cases [OF d]
  consider "concat (map (emit (\<lambda>m. [])) out) = [c]" | "concat (map (emit (\<lambda>m. [])) out) = []"
    by auto
  then show ?case
  proof cases
    case 1
    have "subseq (c # ?r) (c # cs)" using ih by (rule subseq_Cons2)
    then show ?thesis unfolding e 1 by simp
  next
    case 2
    have "subseq ?r (c # cs)" using ih by (rule list_emb_Cons)
    then show ?thesis unfolding e 2 by simp
  qed
next
  case (3 ic p pv x skip)
  then show ?case by simp
next
  case (4 ic p pv x skip c cs)
  have "subseq (concat (map (emit (\<lambda>m. [])) (scan ic p (Some c) skip cs))) (c # cs)"
    using "4.IH" by (rule list_emb_Cons)
  then show ?case by simp
qed

lemma re_sub_deletion_subseq: "subseq (re_sub ic p (\<lambda>m. []) s) s"
  by (simp add: re_sub_def scan_deletion_subseq)

lemma lit_match_brackets [simp]: "lit_match ic 0x5b c = (c = 0x5b)" "lit_match ic 0x5d c = (c = 0x5d)"
  by (simp_all add: lit_match_def sre_iscased_def sre_tolower_def sre_toupper_def)

lemma ends_seq_lit_first:
  "ends ic (RSeq (RLit a) r) (MState pv (c # cs) t g) =
     (if lit_match ic a c then ends ic r (MState (Some c) cs (c # t) g) else [])"
  by simp

lemma foldl_deletions_subseq:
  "subseq (foldl (\<lambda>t p. re_sub ic p (\<lambda>m. []) t) t0 ps) t0"
proof (induction ps arbitrary: t0)
  case Nil
  then show ?case by simp
next
  case (Cons p ps)
  have "subseq (foldl (\<lambda>t p. re_sub ic p (\<lambda>m. []) t) (re_sub ic p (\<lambda>m. []) t0) ps)
          (re_sub ic p (\<lambda>m. []) t0)"
    by (rule Cons.IH)
  then show ?case
    using re_sub_deletion_subseq [of ic p t0] by (auto intro: subseq_order.trans)
qed

lemma lit_match_close: "lit_match ic a 0x5d = (a = 0x5d)"
  by (auto simp: lit_match_def sre_iscased_def sre_tolower_def sre_toupper_def sre_fixes_def
      split: if_splits)

lemma lit_match_paren [simp]: "lit_match ic 0x28 c = (c = 0x28)"
  by (simp add: lit_match_def sre_iscased_def sre_tolower_def sre_toupper_def)

lemma lits_simps: "lits [] = REps" "lits (a # w) = RSeq (RLit a) (lits w)"
  by (simp_all add: lits_def seqs_def)

lemma lits_consumed:
  assumes "x \<in> set (ends ic (lits w) st)" and "0x5d \<notin> set w"
  shows "\<exists>u. rest st = u @ rest x \<and> 0x5d \<notin> set u \<and>
             length (taken x) = length u + length (taken st)"
  using assms
proof (induction w arbitrary: st)
  case Nil
  then show ?case by (simp add: lits_simps)
next
  case step: (Cons a w)
  obtain p r t g where st: "st = MState p r t g" by (cases st)
  show ?case
  proof (cases r)
    case Nil
    with step.prems st show ?thesis by (simp add: lits_simps)
  next
    case (Cons c cs)
    from step.prems(1) st Cons have m: "lit_match ic a c"
      and x: "x \<in> set (ends ic (lits w) (MState (Some c) cs (c # t) g))"
      by (auto simp: lits_simps split: if_splits)
    from m step.prems(2) have c: "c \<noteq> 0x5d" using lit_match_close by auto
    from step.prems(2) have "0x5d \<notin> set w" by simp
    from step.IH [OF x this] obtain u where
      u: "cs = u @ rest x" "0x5d \<notin> set u" "length (taken x) = length u + Suc (length t)"
      by auto
    have "rest st = (c # u) @ rest x \<and> 0x5d \<notin> set (c # u) \<and>
        length (taken x) = length (c # u) + length (taken st)"
      using u c st Cons by simp
    then show ?thesis by blast
  qed
qed

lemma ends_alts_snoc:
  "ends ic (alts (rs @ [r])) st = concat (map (\<lambda>a. ends ic a st) rs) @ ends ic r st"
proof (induction rs)
  case Nil
  then show ?case by simp
next
  case (Cons a rs)
  obtain y ys where y: "rs @ [r] = y # ys" by (cases "rs @ [r]") auto
  have "ends ic (alts (a # rs @ [r])) st = ends ic a st @ ends ic (alts (rs @ [r])) st"
    unfolding y by simp
  with Cons show ?case by simp
qed

lemma star_lazy_nil: "star_lazy f fuel [] = []"
  by (cases fuel) simp_all

lemma close_after:
  "ends ic (RSeq (RLit 0x5d) REps) (MState p [] t g) = []"
  "ends ic (RSeq (RLit 0x5d) REps) (MState p (c # cs) t g) =
     (if c = 0x5d then [MState (Some c) cs (c # t) g] else [])"
  by simp_all

lemma star_lazy_step:
  "star_lazy (step_char P) (x # fuel) [MState p (c # cs) t g] =
     MState p (c # cs) t g #
     (if P c then star_lazy (step_char P) fuel [MState (Some c) cs (c # t) g] else [])"
  by (simp add: star_lazy_nil)

lemma star_lazy_end:
  "star_lazy (step_char P) fuel [MState p [] t g] = [MState p [] t g]"
  by (cases fuel) (simp_all add: star_lazy_nil)

lemma lazy_none:
  "0x5d \<notin> set s \<Longrightarrow>
   concat (map (ends ic (RSeq (RLit 0x5d) REps)) (star_lazy (step_char P) fuel [MState p s t g])) = []"
proof (induction s arbitrary: fuel p t)
  case Nil
  show ?case unfolding star_lazy_end by (simp del: ends.simps add: close_after)
next
  case step: (Cons c cs)
  then have c: "c \<noteq> 0x5d" and cs: "0x5d \<notin> set cs" by auto
  show ?case
  proof (cases fuel)
    case Nil
    with c show ?thesis by (simp del: ends.simps add: close_after)
  next
    case (Cons x fuel')
    show ?thesis
      unfolding Cons star_lazy_step
      using c step.IH [OF cs, of fuel' "Some c" "c # t"]
      by (simp del: ends.simps add: close_after)
  qed
qed

lemma lazy_head:
  assumes "\<forall>c \<in> set mid. P c \<and> c \<noteq> 0x5d" and "length mid \<le> length fuel"
  shows "\<exists>more.
     concat (map (ends ic (RSeq (RLit 0x5d) REps))
       (star_lazy (step_char P) fuel [MState p (mid @ 0x5d # post) t g])) =
     MState (Some 0x5d) post (0x5d # rev mid @ t) g # more"
  using assms
proof (induction mid arbitrary: fuel p t)
  case Nil
  show ?case
  proof (cases fuel)
    case Nil
    then show ?thesis by (simp del: ends.simps add: close_after)
  next
    case (Cons x fuel')
    then show ?thesis by (simp del: ends.simps add: close_after star_lazy_step)
  qed
next
  case step: (Cons c mid)
  then obtain x fuel' where fuel: "fuel = x # fuel'" by (cases fuel) auto
  from step.prems fuel have c: "P c" "c \<noteq> 0x5d" and m: "\<forall>c \<in> set mid. P c \<and> c \<noteq> 0x5d"
    and l: "length mid \<le> length fuel'" by auto
  from step.IH [OF m l, of "Some c" "c # t"] obtain more where
    "concat (map (ends ic (RSeq (RLit 0x5d) REps))
       (star_lazy (step_char P) fuel' [MState (Some c) (mid @ 0x5d # post) (c # t) g])) =
     MState (Some 0x5d) post (0x5d # rev mid @ c # t) g # more" by blast
  then show ?case
    using c by (simp del: ends.simps add: fuel star_lazy_step close_after)
qed


lemma ends_dot: "ends ic RDot = step_char (\<lambda>c. c \<noteq> 0x0a)"
  by (simp add: fun_eq_iff)

lemma bracket_ends_unfold:
  "ends ic (bracket_annotation (map lits wl)) (MState pv (0x5b # cs) [] []) =
     concat (map (ends ic (RSeq (RLit 0x5d) REps))
       (concat (map (\<lambda>w. ends ic (lits w) (MState (Some 0x5b) cs [0x5b] [])) wl))) @
     concat (map (ends ic (RSeq (RLit 0x5d) REps))
       (star_lazy (step_char (\<lambda>c. c \<noteq> 0x0a)) cs [MState (Some 0x5b) cs [0x5b] []]))"
proof -
  let ?st1 = "MState (Some 0x5b) cs [0x5b] []"
  let ?tail = "RSeq (RLit 0x5d) REps"
  let ?alts = "alts (map lits wl @ [RLazyStar RDot])"
  have e1: "bracket_annotation (map lits wl) = RSeq (RLit 0x5b) (RSeq ?alts ?tail)"
    by (simp add: bracket_annotation_def seqs_def)
  have e2: "ends ic (RSeq (RLit 0x5b) (RSeq ?alts ?tail)) (MState pv (0x5b # cs) [] []) =
      ends ic (RSeq ?alts ?tail) ?st1"
    by (subst ends_seq_lit_first) (simp del: ends.simps)
  have e3: "ends ic (RSeq ?alts ?tail) ?st1 = concat (map (ends ic ?tail) (ends ic ?alts ?st1))"
    by (simp del: alts.simps)
  have e4: "ends ic ?alts ?st1 =
      concat (map (\<lambda>w. ends ic (lits w) ?st1) wl) @
      star_lazy (step_char (\<lambda>c. c \<noteq> 0x0a)) cs [?st1]"
    unfolding ends_alts_snoc by (simp add: ends_dot comp_def)
  show ?thesis
    unfolding e1 e2 e3 e4 by (simp del: ends.simps)
qed

lemma word_close:
  assumes "m \<in> set (concat (map (ends ic (RSeq (RLit 0x5d) REps))
             (concat (map (\<lambda>w. ends ic (lits w) (MState p cs t g)) wl))))"
    and "\<forall>w \<in> set wl. 0x5d \<notin> set w"
  shows "\<exists>u r. cs = u @ 0x5d # r \<and> 0x5d \<notin> set u \<and> length (taken m) = length u + Suc (length t)"
proof -
  from assms(1) obtain w x where w: "w \<in> set wl"
    and x: "x \<in> set (ends ic (lits w) (MState p cs t g))"
    and m: "m \<in> set (ends ic (RSeq (RLit 0x5d) REps) x)"
    by auto
  from lits_consumed [OF x] w assms(2) obtain u where
    u: "cs = u @ rest x" "0x5d \<notin> set u" "length (taken x) = length u + length t" by auto
  obtain p' r' t' g' where x': "x = MState p' r' t' g'" by (cases x)
  from m x' obtain r where r: "r' = 0x5d # r" and m': "m = MState (Some 0x5d) r (0x5d # t') g'"
    by (cases r') (auto simp del: ends.simps simp add: close_after split: if_splits)
  have "cs = u @ 0x5d # r \<and> 0x5d \<notin> set u \<and> length (taken m) = length u + Suc (length t)"
    using u x' r m' by simp
  then show ?thesis by blast
qed

lemma bracket_no_match:
  assumes "\<forall>w \<in> set wl. 0x5d \<notin> set w" and "\<not> (\<exists>cs. s = 0x5b # cs \<and> 0x5d \<in> set cs)"
  shows "ends ic (bracket_annotation (map lits wl)) (MState pv s [] []) = []"
proof (cases s)
  case Nil
  then show ?thesis by (simp add: bracket_annotation_def seqs_def)
next
  case (Cons c cs)
  show ?thesis
  proof (cases "c = 0x5b")
    case False
    with Cons show ?thesis by (simp add: bracket_annotation_def seqs_def)
  next
    case True
    with Cons assms(2) have n: "0x5d \<notin> set cs" by simp
    have 1: "concat (map (ends ic (RSeq (RLit 0x5d) REps))
         (concat (map (\<lambda>w. ends ic (lits w) (MState (Some 0x5b) cs [0x5b] [])) wl))) = []"
    proof (rule ccontr)
      assume "\<not> ?thesis"
      then obtain m where "m \<in> set (concat (map (ends ic (RSeq (RLit 0x5d) REps))
         (concat (map (\<lambda>w. ends ic (lits w) (MState (Some 0x5b) cs [0x5b] [])) wl))))"
        by (meson last_in_set)
      from word_close [OF this assms(1)] n show False by auto
    qed
    show ?thesis
      unfolding Cons True bracket_ends_unfold 1 by (simp only: lazy_none [OF n] append_Nil)
  qed
qed

lemma first_close_unique:
  assumes "mid @ c # post = u @ c # r" and "c \<notin> set mid" and "c \<notin> set u"
  shows "u = mid"
  using assms
proof (induction mid arbitrary: u)
  case Nil
  then show ?case by (cases u) auto
next
  case (Cons a mid)
  then show ?case by (cases u) auto
qed

lemma bracket_first_close:
  assumes "\<forall>w \<in> set wl. 0x5d \<notin> set w" and "0x5d \<notin> set mid" and "0x0a \<notin> set mid"
  shows "\<exists>m. match_at ic (bracket_annotation (map lits wl)) pv (0x5b # mid @ 0x5d # post) = Some m \<and>
             length (taken m) = length mid + 2"
proof -
  let ?cs = "mid @ 0x5d # post"
  let ?A = "concat (map (ends ic (RSeq (RLit 0x5d) REps))
         (concat (map (\<lambda>w. ends ic (lits w) (MState (Some 0x5b) ?cs [0x5b] [])) wl)))"
  from assms(2,3) have "\<forall>c \<in> set mid. c \<noteq> 0x0a \<and> c \<noteq> 0x5d" by auto
  from lazy_head [of mid "\<lambda>c. c \<noteq> 0x0a" ?cs ic "Some 0x5b" post "[0x5b]" "[]", OF this]
  obtain more where
    L: "concat (map (ends ic (RSeq (RLit 0x5d) REps))
         (star_lazy (step_char (\<lambda>c. c \<noteq> 0x0a)) ?cs [MState (Some 0x5b) ?cs [0x5b] []])) =
        MState (Some 0x5d) post (0x5d # rev mid @ [0x5b]) [] # more"
    by auto
  have A: "length (taken m) = length mid + 2" if "m \<in> set ?A" for m
  proof -
    from word_close [OF that assms(1)] obtain u r where
      u: "?cs = u @ 0x5d # r" "0x5d \<notin> set u" "length (taken m) = length u + Suc (length [0x5b::nat])"
      by blast
    from first_close_unique [OF u(1) assms(2) u(2)] u(3) show ?thesis by simp
  qed
  have e: "ends ic (bracket_annotation (map lits wl)) (MState pv (0x5b # ?cs) [] []) =
      ?A @ MState (Some 0x5d) post (0x5d # rev mid @ [0x5b]) [] # more"
    unfolding bracket_ends_unfold L ..
  show ?thesis
  proof (cases ?A)
    case Nil
    show ?thesis unfolding match_at_def e Nil by simp
  next
    case (Cons a as)
    then have "a \<in> set ?A" by simp
    from A [OF this] show ?thesis unfolding match_at_def e Cons by simp
  qed
qed

lemma scan_skip:
  "length skip = Suc (length xs) \<Longrightarrow>
   scan ic p pv skip (xs @ c # ys) = scan ic p (Some c) [] ys"
proof (induction xs arbitrary: skip pv)
  case Nil
  then obtain x where "skip = [x]" by (cases skip) auto
  then show ?case by simp
next
  case (Cons a xs)
  then obtain x skip' where s: "skip = x # skip'" and l: "length skip' = Suc (length xs)"
    by (cases skip) auto
  from Cons.IH [OF l] show ?case by (simp add: s)
qed

lemma strip_inside:
  "0x5d \<notin> set mid \<Longrightarrow> strip_from True (mid @ 0x5d # post) = strip_from False post"
  by (induction mid) simp_all

lemma bracket_scan_exact:
  assumes "\<forall>w \<in> set wl. 0x5d \<notin> set w" and "0x0a \<notin> set s"
  shows "concat (map (emit (\<lambda>m. [])) (scan ic (bracket_annotation (map lits wl)) pv [] s)) =
         strip_from False s"
  using assms(2)
proof (induction s arbitrary: pv rule: length_induct)
  case (1 s)
  let ?p = "bracket_annotation (map lits wl)"
  show ?case
  proof (cases s)
    case Nil
    have "match_at ic ?p pv [] = None"
      using bracket_no_match [OF assms(1), of "[]" ic pv] by (simp add: match_at_def)
    with Nil show ?thesis by simp
  next
    case (Cons c cs)
    show ?thesis
    proof (cases "c = 0x5b \<and> 0x5d \<in> set cs")
      case True
      then obtain mid post where cs: "cs = mid @ 0x5d # post" and mid: "0x5d \<notin> set mid"
        by (auto dest: split_list_first)
      from "1.prems" Cons cs have n: "0x0a \<notin> set mid" and n': "0x0a \<notin> set post" by auto
      from bracket_first_close [OF assms(1) mid n, of ic pv post] obtain m where
        m: "match_at ic ?p pv (0x5b # mid @ 0x5d # post) = Some m"
        and l: "length (taken m) = length mid + 2" by blast
      obtain q r t g where m': "m = MState q r t g" by (cases m)
      from l m' obtain x skip where t: "t = x # skip" and ls: "length skip = Suc (length mid)"
        by (cases t) auto
      have d: "decide 0x5b (Some m) = ([Match m], skip)"
        by (simp add: m' t)
      have ih: "concat (map (emit (\<lambda>m. [])) (scan ic ?p (Some 0x5d) [] post)) = strip_from False post"
        using "1.IH" n' by (simp add: Cons cs)
      have "concat (map (emit (\<lambda>m. [])) (scan ic ?p pv [] s)) =
          concat (map (emit (\<lambda>m. [])) (scan ic ?p (Some 0x5b) skip (mid @ 0x5d # post)))"
        using True by (simp add: Cons cs m d)
      also have "\<dots> = strip_from False post"
        unfolding scan_skip [OF ls] by (rule ih)
      also have "\<dots> = strip_from False s"
        using True mid by (simp add: Cons cs strip_inside)
      finally show ?thesis .
    next
      case False
      then have "\<not> (\<exists>cs'. c # cs = 0x5b # cs' \<and> 0x5d \<in> set cs')" by auto
      from bracket_no_match [OF assms(1) this, of ic pv]
      have f: "match_at ic ?p pv (c # cs) = None" by (simp add: match_at_def)
      have ih: "concat (map (emit (\<lambda>m. [])) (scan ic ?p (Some c) [] cs)) = strip_from False cs"
        using "1.IH" "1.prems" by (simp add: Cons)
      show ?thesis
        using False by (auto simp: Cons f ih)
    qed
  qed
qed

lemma strip_from_clean: "\<not> has_bracketed s \<Longrightarrow> strip_from False s = s"
  by (induction s) auto

lemma strip_from_subseq: "subseq (strip_from inside s) s"
proof (induction inside s rule: strip_from.induct)
  case (1 inside)
  then show ?case by simp
next
  case (2 c cs)
  then show ?case by (auto intro: list_emb_Cons)
next
  case (3 c cs)
  then show ?case by (auto intro: list_emb_Cons)
qed

lemma paren_scan_none:
  "0x28 \<notin> set s \<Longrightarrow>
   concat (map (emit repl) (scan ic (paren_annotation ws) pv [] s)) = s"
proof (induction s arbitrary: pv)
  case Nil
  then show ?case by (simp add: match_at_def paren_annotation_def seqs_def)
next
  case (Cons c cs)
  then have "match_at ic (paren_annotation ws) pv (c # cs) = None"
    by (simp add: match_at_def paren_annotation_def seqs_def)
  with Cons show ?case by simp
qed


lemma strip_brackets_first:
  assumes "0x5b \<notin> set pre" and "0x5d \<notin> set label"
  shows "strip_brackets (pre @ [0x5b] @ label @ [0x5d] @ post) = pre @ strip_brackets post"
proof -
  have "strip_from False (pre @ 0x5b # label @ 0x5d # post) = pre @ strip_from False post"
    using assms(1)
  proof (induction pre)
    case Nil
    show ?case using assms(2) by (simp add: strip_inside)
  next
    case (Cons c pre)
    then show ?case by simp
  qed
  then show ?thesis by (simp add: strip_brackets_def)
qed

lemma config_annotations_cases:
  "\<exists>config. config_for lang = Inr config \<and>
     (cfg_annotations config = [bracket_annotation english_words, paren_annotation english_words] \<or>
      cfg_annotations config =
        [bracket_annotation zh_tw_words, paren_annotation zh_tw_words,
         bracket_annotation english_words] \<or>
      cfg_annotations config =
        [bracket_annotation zh_cn_words, paren_annotation zh_cn_words,
         bracket_annotation english_words])"
  by (auto simp: config_for_def LANGUAGE_CONFIGS_def)

lemma words_as_lits:
  "english_words =
     map lits [ustr_of ''Music'', ustr_of ''Applause'', ustr_of ''Laughter'', ustr_of ''Inaudible'']"
  "zh_tw_words =
     map lits [[0x97f3, 0x6a02], [0x638c, 0x8072], [0x7b11, 0x8072], [0x7121, 0x6cd5, 0x807d, 0x6e05]]"
  "zh_cn_words =
     map lits [[0x97f3, 0x4e50], [0x638c, 0x58f0], [0x7b11, 0x58f0], [0x65e0, 0x6cd5, 0x542c, 0x6e05]]"
  by (simp_all add: english_words_def zh_tw_words_def zh_cn_words_def)

lemma words_without_close:
  "\<forall>w \<in> set [ustr_of ''Music'', ustr_of ''Applause'', ustr_of ''Laughter'', ustr_of ''Inaudible''].
     0x5d \<notin> set w"
  "\<forall>w \<in> set [[0x97f3, 0x6a02], [0x638c, 0x8072], [0x7b11, 0x8072], [0x7121, 0x6cd5, 0x807d, 0x6e05::nat]].
     0x5d \<notin> set w"
  "\<forall>w \<in> set [[0x97f3, 0x4e50], [0x638c, 0x58f0], [0x7b11, 0x58f0], [0x65e0, 0x6cd5, 0x542c, 0x6e05::nat]].
     0x5d \<notin> set w"
  by (simp_all add: ustr_of_def)

lemma config_annotations_shape:
  "\<exists>config wl pw more.
     config_for lang = Inr config \<and>
     cfg_annotations config = bracket_annotation (map lits wl) # paren_annotation pw # more \<and>
     (\<forall>w \<in> set wl. 0x5d \<notin> set w) \<and>
     (more = [] \<or>
      (\<exists>wl'. more = [bracket_annotation (map lits wl')] \<and> (\<forall>w \<in> set wl'. 0x5d \<notin> set w)))"
proof -
  from config_annotations_cases [of lang] obtain config where c: "config_for lang = Inr config"
    and d: "cfg_annotations config = [bracket_annotation english_words, paren_annotation english_words] \<or>
      cfg_annotations config =
        [bracket_annotation zh_tw_words, paren_annotation zh_tw_words,
         bracket_annotation english_words] \<or>
      cfg_annotations config =
        [bracket_annotation zh_cn_words, paren_annotation zh_cn_words,
         bracket_annotation english_words]"
    by blast
  from d show ?thesis
  proof (elim disjE)
    assume "cfg_annotations config = [bracket_annotation english_words, paren_annotation english_words]"
    then have "cfg_annotations config =
        bracket_annotation (map lits [ustr_of ''Music'', ustr_of ''Applause'', ustr_of ''Laughter'',
          ustr_of ''Inaudible'']) # paren_annotation english_words # []"
      by (simp only: words_as_lits [symmetric])
    with c words_without_close(1) show ?thesis by blast
  next
    assume "cfg_annotations config =
        [bracket_annotation zh_tw_words, paren_annotation zh_tw_words,
         bracket_annotation english_words]"
    then have "cfg_annotations config =
        bracket_annotation (map lits [[0x97f3, 0x6a02], [0x638c, 0x8072], [0x7b11, 0x8072],
          [0x7121, 0x6cd5, 0x807d, 0x6e05]]) # paren_annotation zh_tw_words #
        [bracket_annotation (map lits [ustr_of ''Music'', ustr_of ''Applause'', ustr_of ''Laughter'',
          ustr_of ''Inaudible''])]"
      by (simp only: words_as_lits [symmetric])
    with c words_without_close(1,2) show ?thesis by blast
  next
    assume "cfg_annotations config =
        [bracket_annotation zh_cn_words, paren_annotation zh_cn_words,
         bracket_annotation english_words]"
    then have "cfg_annotations config =
        bracket_annotation (map lits [[0x97f3, 0x4e50], [0x638c, 0x58f0], [0x7b11, 0x58f0],
          [0x65e0, 0x6cd5, 0x542c, 0x6e05]]) # paren_annotation zh_cn_words #
        [bracket_annotation (map lits [ustr_of ''Music'', ustr_of ''Applause'', ustr_of ''Laughter'',
          ustr_of ''Inaudible''])]"
      by (simp only: words_as_lits [symmetric])
    with c words_without_close(1,3) show ?thesis by blast
  qed
qed

lemma bracket_sub_exact:
  assumes "\<forall>w \<in> set wl. 0x5d \<notin> set w" and "0x0a \<notin> set s"
  shows "re_sub ic (bracket_annotation (map lits wl)) (\<lambda>m. []) s = strip_brackets s"
  unfolding re_sub_def strip_brackets_def by (rule bracket_scan_exact [OF assms])

lemma strip_brackets_clean: "\<not> has_bracketed (strip_brackets s)"
proof -
  have "\<not> has_bracketed (strip_from inside s)" for inside
  proof (induction inside s rule: strip_from.induct)
    case (1 inside)
    then show ?case by simp
  next
    case (2 c cs)
    then show ?case by simp
  next
    case (3 c cs)
    have "set (strip_from False cs) \<subseteq> set cs"
      by (rule subseq_set [OF strip_from_subseq])
    with 3 show ?case by auto
  qed
  then show ?thesis by (simp add: strip_brackets_def)
qed

text \<open>
  C10. For every language string, annotation removal applied to a caption (a single
  line, as the parser extracts it: \<open>parsed_captions_single_line\<close> below) deletes exactly
  the bracketed parts of the caption with its first pattern, whatever stands between the
  brackets: what is left is \<open>strip_brackets caption\<close>, in which every character outside
  the bracketed parts is kept and a bracketed part ends at the first \<^verbatim>\<open>]\<close> after its
  \<^verbatim>\<open>[\<close> (\<open>strip_brackets_first\<close>). The other patterns of the language are then applied
  to that text. They only delete, the result holds no text of the form \<^verbatim>\<open>[...]\<close>, and in
  a caption without \<^verbatim>\<open>(\<close> they delete nothing: the result is \<open>strip_brackets caption\<close>.
\<close>

theorem bracketed_text_removed:
  assumes "0x0a \<notin> set caption"
  shows "\<exists>cleaned config.
           remove_annotations caption lang = Inr cleaned \<and>
           config_for lang = Inr config \<and>
           cleaned = foldl (\<lambda>t p. re_sub True p (\<lambda>m. []) t) (strip_brackets caption)
                       (tl (cfg_annotations config)) \<and>
           subseq cleaned (strip_brackets caption) \<and>
           \<not> (\<exists>pre mid post. cleaned = pre @ [0x5b] @ mid @ [0x5d] @ post) \<and>
           (0x28 \<notin> set caption \<longrightarrow> cleaned = strip_brackets caption)"
proof -
  obtain config wl pw more where config: "config_for lang = Inr config"
    and ann: "cfg_annotations config = bracket_annotation (map lits wl) # paren_annotation pw # more"
    and wl: "\<forall>w \<in> set wl. 0x5d \<notin> set w"
    and more: "more = [] \<or>
      (\<exists>wl'. more = [bracket_annotation (map lits wl')] \<and> (\<forall>w \<in> set wl'. 0x5d \<notin> set w))"
    using config_annotations_shape by blast
  let ?del = "\<lambda>t p. re_sub True p (\<lambda>m. []) t"
  let ?first = "strip_brackets caption"
  let ?cleaned = "foldl ?del ?first (tl (cfg_annotations config))"
  have first: "re_sub True (bracket_annotation (map lits wl)) (\<lambda>m. []) caption = ?first"
    by (rule bracket_sub_exact [OF wl assms])
  have r: "remove_annotations caption lang = Inr ?cleaned"
    by (simp add: remove_annotations_def config ann bind_result_def first)
  have 1: "subseq ?cleaned ?first" by (rule foldl_deletions_subseq)
  have 2: "\<not> has_bracketed ?cleaned"
    using 1 strip_brackets_clean has_bracketed_subseq by blast
  have sub: "set ?first \<subseteq> set caption"
    unfolding strip_brackets_def by (rule subseq_set [OF strip_from_subseq])
  have 3: "?cleaned = ?first" if np: "0x28 \<notin> set caption"
  proof -
    from np sub have "0x28 \<notin> set ?first" by blast
    then have p: "re_sub True (paren_annotation pw) (\<lambda>m. []) ?first = ?first"
      unfolding re_sub_def by (rule paren_scan_none)
    from more show ?thesis
    proof
      assume "more = []"
      then show ?thesis by (simp add: ann p)
    next
      assume "\<exists>wl'. more = [bracket_annotation (map lits wl')] \<and> (\<forall>w \<in> set wl'. 0x5d \<notin> set w)"
      then obtain wl' where m: "more = [bracket_annotation (map lits wl')]"
        and wl': "\<forall>w \<in> set wl'. 0x5d \<notin> set w" by blast
      from assms sub have n: "0x0a \<notin> set ?first" by blast
      have "re_sub True (bracket_annotation (map lits wl')) (\<lambda>m. []) ?first = strip_brackets ?first"
        by (rule bracket_sub_exact [OF wl' n])
      also have "\<dots> = ?first"
        unfolding strip_brackets_def [of "strip_brackets caption"]
        by (rule strip_from_clean [OF strip_brackets_clean])
      finally show ?thesis by (simp add: ann m p)
    qed
  qed
  from r config 1 2 3 show ?thesis
    unfolding has_bracketed_iff by blast
qed

section \<open>Captions are single lines\<close>

lemma py_split_nonempty: "py_split sep s \<noteq> []"
  by (induction s) (auto split: list.splits)

lemma py_split_lines_free: "l \<in> set (py_split sep s) \<Longrightarrow> sep \<notin> set l"
proof (induction s arbitrary: l)
  case Nil
  then show ?case by simp
next
  case (Cons c s)
  obtain r rs where r: "py_split sep s = r # rs"
    using py_split_nonempty [of sep s] by (cases "py_split sep s") auto
  with Cons show ?case by (cases "c = sep") auto
qed

lemma py_join_chars: "c \<in> set (py_join sep xs) \<Longrightarrow> c \<in> set sep \<or> (\<exists>x \<in> set xs. c \<in> set x)"
  by (induction sep xs rule: py_join.induct) auto

lemma py_strip_chars: "set (py_strip s) \<subseteq> set s"
proof -
  have "set (py_rstrip t) \<subseteq> set t" for t
    unfolding py_rstrip_def using set_dropWhileD [of _ py_isspace "rev t"] by auto
  moreover have "set (py_lstrip s) \<subseteq> set s"
    unfolding py_lstrip_def using set_dropWhileD [of _ py_isspace s] by auto
  ultimately show ?thesis unfolding py_strip_def by blast
qed

lemma remove_subtitle_formatting_chars: "set (remove_subtitle_formatting t) \<subseteq> set t"
proof -
  have "subseq (remove_subtitle_formatting t) t"
    unfolding remove_subtitle_formatting_def
    using re_sub_deletion_subseq subseq_order.trans by blast
  then show ?thesis by (rule subseq_set)
qed

lemma lines_after_subset: "set (lines_after found lines) \<subseteq> set lines"
  by (induction lines) auto

lemma caption_of_single_line:
  assumes "\<forall>l \<in> set caption_text. 0x0a \<notin> set l" and "c \<in> set (caption_of caption_text)"
  shows "0x0a \<notin> set c"
proof -
  let ?joined = "py_join (ustr_of '' '') caption_text"
  have j: "0x0a \<notin> set ?joined"
    using assms(1) py_join_chars [of "0x0a" "ustr_of '' ''" caption_text] by (auto simp: ustr_of_def)
  from assms(2) have "c = py_strip (remove_subtitle_formatting ?joined)"
    by (auto simp: caption_of_def Let_def split: if_splits)
  then have "set c \<subseteq> set ?joined"
    using py_strip_chars remove_subtitle_formatting_chars by blast
  with j show ?thesis by blast
qed

lemma nonblank_lines_free: "l \<in> set (nonblank_lines block) \<Longrightarrow> 0x0a \<notin> set l"
  by (auto simp: nonblank_lines_def dest: py_split_lines_free)

lemma vtt_block_single_line:
  assumes "vtt_block U block = Inr added" and "c \<in> set added"
  shows "0x0a \<notin> set c"
proof -
  let ?lines = "nonblank_lines block"
  have "\<forall>l \<in> set (lines_after (re_search False (timestamp_re U)) ?lines). 0x0a \<notin> set l"
    using lines_after_subset nonblank_lines_free by blast
  moreover from assms have "c \<in> set (caption_of (lines_after (re_search False (timestamp_re U)) ?lines))"
    by (cases ?lines) (auto simp: vtt_block_def Let_def py_index_def bind_result_def split: if_splits)
  ultimately show ?thesis by (rule caption_of_single_line)
qed

lemma srt_block_single_line:
  assumes "srt_block block = Inr added" and "c \<in> set added"
  shows "0x0a \<notin> set c"
proof -
  let ?lines = "nonblank_lines block"
  have a: "\<forall>l \<in> set (lines_after (py_in arrow) ?lines). 0x0a \<notin> set l"
    using lines_after_subset nonblank_lines_free by blast
  have b: "\<forall>l \<in> set (drop 2 ?lines). 0x0a \<notin> set l"
    using nonblank_lines_free by (auto dest: in_set_dropD)
  from assms have "c \<in> set (caption_of (lines_after (py_in arrow) ?lines)) \<or>
      c \<in> set (caption_of (drop 2 ?lines))"
    by (cases ?lines) (auto simp: srt_block_def Let_def py_index_def bind_result_def split: if_splits)
  with a b show ?thesis using caption_of_single_line by blast
qed

lemma blocks_loop_single_line:
  assumes "\<And>block added c. body block = Inr added \<Longrightarrow> c \<in> set added \<Longrightarrow> 0x0a \<notin> set c"
    and "blocks_loop body captions blocks = Inr captions'"
    and "\<forall>c \<in> set captions. 0x0a \<notin> set c"
  shows "\<forall>c \<in> set captions'. 0x0a \<notin> set c"
  using assms(2,3)
proof (induction blocks arbitrary: captions)
  case Nil
  then show ?case by simp
next
  case (Cons block blocks)
  from Cons.prems(1) obtain added where a: "body block = Inr added"
    and r: "blocks_loop body (captions @ added) blocks = Inr captions'"
    by (cases "body block") (auto simp: bind_result_def)
  have "\<forall>c \<in> set (captions @ added). 0x0a \<notin> set c"
    using Cons.prems(2) assms(1) [OF a] by auto
  with Cons.IH [OF r] show ?case .
qed

lemma parsed_captions_single_line:
  assumes "parse_subtitle_file U w sub_path fmt = Inr (captions, detected)"
  shows "\<forall>c \<in> set captions. 0x0a \<notin> set c"
proof -
  from assms obtain raw where raw: "files w (path_name sub_path) = Some raw"
    by (cases "files w (path_name sub_path)") (auto simp: parse_subtitle_file_def)
  let ?blocks = "re_split blank_lines (normalize_newlines raw)"
  from assms raw consider
      "blocks_loop (vtt_block U) [] ?blocks = Inr captions"
    | "blocks_loop srt_block [] ?blocks = Inr captions"
    | "captions = []"
    by (auto simp: parse_subtitle_file_def Let_def bind_result_def split: if_splits sum.splits)
  then show ?thesis
  proof cases
    case 1
    then show ?thesis using blocks_loop_single_line [of "vtt_block U"] vtt_block_single_line by force
  next
    case 2
    then show ?thesis using blocks_loop_single_line [of srt_block] srt_block_single_line by force
  next
    case 3
    then show ?thesis by simp
  qed
qed

text \<open>
  The later stages keep the captions single lines: annotation removal and stripping only
  delete characters, and deduplication only drops captions.
\<close>

lemma remove_annotations_chars:
  assumes "remove_annotations c lang = Inr c'"
  shows "set c' \<subseteq> set c"
proof -
  obtain config where config: "config_for lang = Inr config"
    using config_for_total by blast
  with assms have "c' = foldl (\<lambda>t p. re_sub True p (\<lambda>m. []) t) c (cfg_annotations config)"
    by (simp add: remove_annotations_def bind_result_def)
  then have "subseq c' c" by (simp add: foldl_deletions_subseq)
  then show ?thesis by (rule subseq_set)
qed

lemma map_result_elements:
  assumes "map_result f xs = Inr ys" and "y \<in> set ys"
  shows "\<exists>x \<in> set xs. f x = Inr y"
  using assms
proof (induction xs arbitrary: ys)
  case Nil
  then show ?case by simp
next
  case (Cons x xs)
  from Cons.prems(1) obtain z zs where z: "f x = Inr z" and zs: "map_result f xs = Inr zs"
    and ys: "ys = z # zs"
    by (cases "f x"; cases "map_result f xs") (auto simp: bind_result_def)
  from Cons.prems(2) ys consider "y = z" | "y \<in> set zs" by auto
  then show ?case
  proof cases
    case 1
    with z show ?thesis by simp
  next
    case 2
    with Cons.IH [OF zs] show ?thesis by auto
  qed
qed

lemma remove_duplicates_subset:
  assumes "remove_duplicates U captions = Inr kept"
  shows "set kept \<subseteq> set captions"
proof -
  have step: "set (keep_step U cleaned c) \<subseteq> set cleaned \<union> {c}" for cleaned c
    by (auto simp: keep_step_def)
  have "set (foldl (keep_step U) cleaned cs) \<subseteq> set cleaned \<union> set cs" for cleaned cs
  proof (induction cs arbitrary: cleaned)
    case Nil
    then show ?case by simp
  next
    case (Cons c cs)
    have "set (foldl (keep_step U) (keep_step U cleaned c) cs) \<subseteq> set (keep_step U cleaned c) \<union> set cs"
      by (rule Cons.IH)
    with step [of cleaned c] show ?case by auto
  qed
  from this [of "[]" captions] assms show ?thesis
    by (simp add: remove_duplicates_foldl)
qed

lemma merged_captions_single_line:
  assumes "parse_subtitle_file U w sub_path fmt = Inr (captions, detected)"
    and "map_result (\<lambda>c. remove_annotations c lang) captions = Inr annotated"
    and "remove_duplicates U (map py_strip (filter (\<lambda>c. py_strip c \<noteq> []) annotated)) = Inr kept"
  shows "\<forall>c \<in> set kept. 0x0a \<notin> set c"
proof
  fix c
  assume "c \<in> set kept"
  with remove_duplicates_subset [OF assms(3)] obtain a where a: "a \<in> set annotated"
    and c: "c = py_strip a" by auto
  from map_result_elements [OF assms(2) a] obtain p where p: "p \<in> set captions"
    and pa: "remove_annotations p lang = Inr a" by blast
  from parsed_captions_single_line [OF assms(1)] p have "0x0a \<notin> set p" by blast
  with remove_annotations_chars [OF pa] have "0x0a \<notin> set a" by blast
  with py_strip_chars [of a] c show "0x0a \<notin> set c" by blast
qed

section \<open>Concrete runs\<close>

text \<open>The definitions that the simplifier unfolds to run the model on a given input.\<close>

lemmas string_eval = ustr_of_def py_isspace_def py_islinebreak_def sre_tolower_def
  sre_toupper_def sre_iscased_def sre_fixes_def lit_match_def py_lstrip_def py_rstrip_def
  py_strip_def py_replace_def py_splitlines_def py_index_def py_last_def bind_result_def
  is_ascii_def ascii_lower_def ascii_upper_def

lemmas regex_eval = RPlus_def ROpt_def seqs_def lits_def match_at_def re_search_def re_sub_def
  re_sub_call_def group_def template_group_def re_split_def

lemmas profile_eval = lang_en_def lang_zh_tw_def lang_zh_cn_def lang_auto_def sentence_end_en_def
  sentence_end_zh_def english_words_def bracket_annotation_def paren_annotation_def zh_tw_words_def
  zh_cn_words_def LANGUAGE_CONFIGS_def config_for_def

lemmas parse_eval = voice_tag_def any_tag_def remove_subtitle_formatting_def fmt_auto_def fmt_vtt_def
  fmt_srt_def arrow_def WEBVTT_def NOTE_def blank_lines_def timestamp_def timestamp_re_def
  normalize_newlines_def detect_format_def nonblank_lines_def caption_of_def vtt_block_def
  srt_block_def parse_subtitle_file_def Let_def

lemmas finish_eval = remove_annotations_def remove_duplicates_def merge_into_paragraphs_def
  sentence_start_def lone_i_def i_apostrophe_def upper_second_def capitalize_first_def
  fix_capitalization_def blank_def cjk_def cjk_gap_def blanks2_def fullwidth_punct_def punct_def
  letter_def clean_line_def clean_spacing_def finished_text_def Let_def

text \<open>The values on ASCII of a database that is right on ASCII.\<close>

lemma ascii_tables:
  assumes "agrees_on_ascii U"
  shows "is_ascii s \<Longrightarrow> str_lower U s = map ascii_lower s"
    and "is_ascii s \<Longrightarrow> str_upper U s = map ascii_upper s"
    and "c < 0x80 \<Longrightarrow> str_islower U [c] = (0x61 \<le> c \<and> c \<le> 0x7a)"
    and "c < 0x80 \<Longrightarrow> is_decimal U c = (0x30 \<le> c \<and> c \<le> 0x39)"
    and "c < 0x80 \<Longrightarrow> word_char U c =
           ((0x30 \<le> c \<and> c \<le> 0x39) \<or> (0x41 \<le> c \<and> c \<le> 0x5a) \<or> (0x61 \<le> c \<and> c \<le> 0x7a) \<or>
            c = 0x5f)"
  using assms by (auto simp: agrees_on_ascii_def word_char_def)

lemma sample_tables_ascii: "agrees_on_ascii sample_tables"
proof -
  have l: "latin1_lower c = ascii_lower c" if "c < 0x80" for c
    using that by (auto simp: latin1_lower_def latin1_isupper_def ascii_lower_def)
  have u: "latin1_upper c = [ascii_upper c]" if "c < 0x80" for c
    using that by (auto simp: latin1_upper_def ascii_upper_def)
  have 1: "map latin1_lower s = map ascii_lower s \<and> concat (map latin1_upper s) = map ascii_upper s"
    if "is_ascii s" for s
    using that by (induction s) (simp_all add: is_ascii_def l u)
  have 2: "(latin1_islower c \<and> \<not> latin1_isupper c) = (0x61 \<le> c \<and> c \<le> 0x7a)" if "c < 0x80" for c
    using that by (auto simp: latin1_islower_def latin1_isupper_def)
  have 3: "latin1_isalnum c =
      ((0x30 \<le> c \<and> c \<le> 0x39) \<or> (0x41 \<le> c \<and> c \<le> 0x5a) \<or> (0x61 \<le> c \<and> c \<le> 0x7a))"
    if "c < 0x80" for c
    using that by (auto simp: latin1_isalnum_def)
  show ?thesis
    by (simp add: agrees_on_ascii_def sample_tables_def 1 2 3)
qed

lemma sample_writes_ok: "writes_ok sample_world output_path" "writes_ok (one_file name content) output_path"
  by (simp_all add: writes_ok_def sample_world_def one_file_def split: option.splits)

lemma sample_blocks:
  "re_split blank_lines (normalize_newlines sample_vtt) =
     [WEBVTT, block1, block2]"
  by (simp add: sample_vtt_def WEBVTT_def block1_def block2_def cue1_def cue2_def string_eval regex_eval blank_lines_def normalize_newlines_def)

lemma sample_block0: "vtt_block U WEBVTT = Inr []"
  by (simp add: string_eval regex_eval parse_eval)

lemma sample_block1:
  assumes "agrees_on_ascii U"
  shows "vtt_block U block1 = Inr [cue1]"
  by (simp add: block1_def cue1_def string_eval regex_eval parse_eval ascii_tables [OF assms])

lemma sample_block2:
  assumes "agrees_on_ascii U"
  shows "vtt_block U block2 = Inr [cue2]"
  by (simp add: block2_def cue2_def string_eval regex_eval parse_eval ascii_tables [OF assms])

lemma sample_parsed:
  assumes "agrees_on_ascii U"
  shows "parse_subtitle_file U sample_world sample_path fmt_vtt = Inr ([cue1, cue2], fmt_vtt)"
proof -
  have f: "files sample_world (path_name sample_path) = Some sample_vtt"
    by (simp add: sample_world_def sample_path_def)
  show ?thesis
    by (simp add: parse_subtitle_file_def f Let_def sample_blocks detect_format_given sample_block0
        sample_block1 [OF assms] sample_block2 [OF assms] bind_result_def)
qed

lemma sample_annotations1: "remove_annotations cue1 lang_en = Inr cue1"
  by (simp add: cue1_def string_eval regex_eval profile_eval remove_annotations_def)

lemma sample_annotations2: "remove_annotations cue2 lang_en = Inr cue2"
  by (simp add: cue2_def string_eval regex_eval profile_eval remove_annotations_def)

lemma sample_strip: "py_strip cue1 = cue1" "py_strip cue2 = cue2"
  by (simp_all add: cue1_def cue2_def string_eval)

lemma sample_dedup:
  assumes "agrees_on_ascii U"
  shows "remove_duplicates U [cue1, cue2] = Inr [cue1, cue2]"
  by (simp add: cue1_def cue2_def string_eval remove_duplicates_def ascii_tables [OF assms])

lemma sample_merge: "merge_into_paragraphs [cue1, cue2] lang_en = Inr [cue1, cue2]"
  by (simp add: cue1_def cue2_def string_eval regex_eval profile_eval merge_into_paragraphs_def)

lemma sample_fix1:
  assumes "agrees_on_ascii U"
  shows "fix_capitalization U cue1 lang_en = Inr cue1"
  by (simp add: cue1_def string_eval regex_eval profile_eval finish_eval ascii_tables [OF assms])

lemma sample_fix2:
  assumes "agrees_on_ascii U"
  shows "fix_capitalization U cue2 lang_en = Inr cue2"
  by (simp add: cue2_def string_eval regex_eval profile_eval finish_eval ascii_tables [OF assms])

lemma sample_clean1: "clean_spacing cue1 lang_en = cue1"
  by (simp add: cue1_def string_eval regex_eval profile_eval finish_eval)

lemma sample_clean2: "clean_spacing cue2 lang_en = cue2"
  by (simp add: cue2_def string_eval regex_eval profile_eval finish_eval)

lemma sample_finished:
  assumes "agrees_on_ascii U"
  shows "finished_text U [cue1, cue2] lang_en = Inr (cue1 @ [0x0a, 0x0a] @ cue2)"
proof -
  have ne: "cue1 \<noteq> []" "cue2 \<noteq> []" by (simp_all add: cue1_def cue2_def ustr_of_def)
  show ?thesis
    by (simp add: finished_text_def sample_annotations1 sample_annotations2 sample_strip
        sample_dedup [OF assms] sample_merge sample_fix1 [OF assms] sample_fix2 [OF assms]
        sample_clean1 sample_clean2 ne bind_result_def)
qed

lemma sample_detected: "detect_language (cue1 @ ustr_of '' '' @ cue2) = lang_en"
  by (simp add: cue1_def cue2_def ustr_of_def detect_language_def is_cjk_def Let_def)

lemma convert_auto_format:
  assumes "str_lower U (path_suffix sub_path) = ustr_of ''.vtt''"
  shows "convert_subtitles_to_text U w sub_path output_path lang fmt_auto =
         convert_subtitles_to_text U w sub_path output_path lang fmt_vtt"
proof -
  have "detect_format U fmt_auto (path_suffix sub_path) n =
      detect_format U fmt_vtt (path_suffix sub_path) n" for n
    using assms fmt_codes_distinct by (simp add: detect_format_def Let_def)
  then have "parse_subtitle_file U w sub_path fmt_auto = parse_subtitle_file U w sub_path fmt_vtt"
    by (cases "files w (path_name sub_path)") (simp_all add: parse_subtitle_file_def)
  then show ?thesis by (simp add: convert_unfold)
qed

lemma sample_suffix:
  assumes "agrees_on_ascii U"
  shows "str_lower U (path_suffix sample_path) = ustr_of ''.vtt''"
  by (simp add: sample_path_def string_eval ascii_tables [OF assms])

lemma sample_converted:
  assumes "agrees_on_ascii U"
  shows
  "map_sum id fst (convert_subtitles_to_text U sample_world sample_path output_path lang_en fmt_vtt) =
     Inr (cue1 @ [0x0a, 0x0a] @ cue2)"
  "map_sum id fst (convert_subtitles_to_text U sample_world sample_path output_path lang_auto fmt_vtt) =
     Inr (cue1 @ [0x0a, 0x0a] @ cue2)"
  using lang_codes_distinct
  by (simp_all add: convert_text sample_parsed [OF assms] bind_result_def resolve_language_def
      Let_def sample_detected sample_finished [OF assms] sample_writes_ok)

text \<open>
  C1. For the English VTT file of the two cues "Hello and welcome to this tutorial." and
  "Today we're going to learn about video text tracks.", the conversion returns the two
  sentences as two paragraphs with an empty line between them, with the language and the
  format given or detected, for every Unicode database that is right on ASCII.
\<close>

theorem english_vtt_scenario:
  assumes "agrees_on_ascii U"
  shows
  "map_sum id fst (convert_subtitles_to_text U sample_world sample_path None lang_en fmt_vtt) =
     Inr (ustr_of ''Hello and welcome to this tutorial.'' @ [0x0a, 0x0a] @
          ustr_of ''Today we're going to learn about video text tracks.'') \<and>
   map_sum id fst (convert_subtitles_to_text U sample_world sample_path None lang_auto fmt_auto) =
     Inr (ustr_of ''Hello and welcome to this tutorial.'' @ [0x0a, 0x0a] @
          ustr_of ''Today we're going to learn about video text tracks.'') \<and>
   map_sum id fst (convert_subtitles_to_text U sample_world sample_path None lang_en fmt_auto) =
     Inr (ustr_of ''Hello and welcome to this tutorial.'' @ [0x0a, 0x0a] @
          ustr_of ''Today we're going to learn about video text tracks.'') \<and>
   map_sum id fst (convert_subtitles_to_text U sample_world sample_path None lang_auto fmt_vtt) =
     Inr (ustr_of ''Hello and welcome to this tutorial.'' @ [0x0a, 0x0a] @
          ustr_of ''Today we're going to learn about video text tracks.'')"
  unfolding convert_auto_format [OF sample_suffix [OF assms]] sample_converted [OF assms]
    cue1_def cue2_def
  by simp

text \<open>C1 with the database of the code points below U+0100.\<close>

theorem english_vtt_scenario_witness:
  "map_sum id fst
     (convert_subtitles_to_text sample_tables sample_world sample_path None lang_en fmt_vtt) =
     Inr (ustr_of ''Hello and welcome to this tutorial.'' @ [0x0a, 0x0a] @
          ustr_of ''Today we're going to learn about video text tracks.'') \<and>
   map_sum id fst
     (convert_subtitles_to_text sample_tables sample_world sample_path None lang_auto fmt_auto) =
     Inr (ustr_of ''Hello and welcome to this tutorial.'' @ [0x0a, 0x0a] @
          ustr_of ''Today we're going to learn about video text tracks.'') \<and>
   map_sum id fst
     (convert_subtitles_to_text sample_tables sample_world sample_path None lang_en fmt_auto) =
     Inr (ustr_of ''Hello and welcome to this tutorial.'' @ [0x0a, 0x0a] @
          ustr_of ''Today we're going to learn about video text tracks.'') \<and>
   map_sum id fst
     (convert_subtitles_to_text sample_tables sample_world sample_path None lang_auto fmt_vtt) =
     Inr (ustr_of ''Hello and welcome to this tutorial.'' @ [0x0a, 0x0a] @
          ustr_of ''Today we're going to learn about video text tracks.'')"
  by (rule english_vtt_scenario [OF sample_tables_ascii])


text \<open>
  C6. The profiles of \<^verbatim>\<open>zh_tw\<close> and \<^verbatim>\<open>zh_cn\<close> list the localized bracket pattern, the
  localized parenthesis pattern and the English bracket pattern, but no English
  parenthesis pattern: \<^verbatim>\<open>(Applause)\<close> stays in a Chinese caption, while the English
  profile removes it, and the bracketed and the localized forms are removed.
\<close>

theorem english_parentheses_kept_in_chinese:
  "remove_annotations (ustr_of ''(Applause)'') lang_zh_tw = Inr (ustr_of ''(Applause)'') \<and>
   remove_annotations (ustr_of ''(Applause)'') lang_zh_cn = Inr (ustr_of ''(Applause)'') \<and>
   remove_annotations (ustr_of ''(Applause)'') lang_en = Inr [] \<and>
   remove_annotations (ustr_of ''[Applause]'') lang_zh_tw = Inr [] \<and>
   remove_annotations (ustr_of ''[Applause]'') lang_zh_cn = Inr [] \<and>
   remove_annotations [0x28, 0x638c, 0x8072, 0x29] lang_zh_tw = Inr [] \<and>
   remove_annotations [0x28, 0x638c, 0x58f0, 0x29] lang_zh_cn = Inr []"
  by (simp add: string_eval regex_eval profile_eval remove_annotations_def)

lemma srt_cue_normalized: "normalize_newlines srt_cue = srt_cue"
  by (simp add: srt_cue_def normalize_newlines_def string_eval)

text \<open>
  C2 at two files: a VTT file named \<^verbatim>\<open>talk.srt\<close> is parsed as VTT, and an SRT cue in
  \<^verbatim>\<open>talk.txt\<close> is parsed as SRT.
\<close>

theorem format_detection_witness:
  "(\<exists>captions. parse_subtitle_file sample_tables (one_file ''talk.srt'' vtt_cue)
       (path_of ''talk.srt'' ''.srt'') fmt_auto = Inr (captions, fmt_vtt)) \<and>
   parse_subtitle_file sample_tables (one_file ''talk.srt'' vtt_cue)
       (path_of ''talk.srt'' ''.srt'') fmt_auto =
   parse_subtitle_file sample_tables (one_file ''talk.srt'' vtt_cue)
       (path_of ''talk.srt'' ''.srt'') fmt_vtt \<and>
   (\<exists>captions. parse_subtitle_file sample_tables (one_file ''talk.txt'' srt_cue)
       (path_of ''talk.txt'' ''.txt'') fmt_auto = Inr (captions, fmt_srt)) \<and>
   parse_subtitle_file sample_tables (one_file ''talk.txt'' srt_cue)
       (path_of ''talk.txt'' ''.txt'') fmt_auto =
   parse_subtitle_file sample_tables (one_file ''talk.txt'' srt_cue)
       (path_of ''talk.txt'' ''.txt'') fmt_srt"
proof -
  have f1: "files (one_file ''talk.srt'' vtt_cue) (path_name (path_of ''talk.srt'' ''.srt'')) = Some vtt_cue"
    by (simp add: one_file_def path_of_def)
  have h1: "prefix WEBVTT vtt_cue"
    by (simp add: vtt_cue_def WEBVTT_def)
  have f2: "files (one_file ''talk.txt'' srt_cue) (path_name (path_of ''talk.txt'' ''.txt'')) = Some srt_cue"
    by (simp add: one_file_def path_of_def)
  have h2: "str_lower sample_tables (path_suffix (path_of ''talk.txt'' ''.txt'')) \<noteq> ustr_of ''.vtt''"
    by (simp add: path_of_def string_eval ascii_tables [OF sample_tables_ascii])
  have h3: "\<not> prefix WEBVTT (py_lstrip (normalize_newlines srt_cue))"
    unfolding srt_cue_normalized by (simp add: srt_cue_def WEBVTT_def string_eval)
  have h4: "py_in arrow (normalize_newlines srt_cue)"
    unfolding srt_cue_normalized by (simp add: srt_cue_def arrow_def string_eval)
  from format_detection [OF f1, of sample_tables] h1 format_detection [OF f2, of sample_tables] h2 h3 h4
  show ?thesis by blast
qed

text \<open>
  C2 as the specification words it fails: the SRT cue holds \<^verbatim>\<open>-->\<close> and does not
  start with \<^verbatim>\<open>WEBVTT\<close>, but in a file named \<^verbatim>\<open>talk.vtt\<close> the suffix decides and it
  is parsed as VTT; and a VTT file whose header comes after a space does not start with
  \<^verbatim>\<open>WEBVTT\<close> either, yet in \<^verbatim>\<open>talk.txt\<close> it is parsed as VTT.
\<close>

theorem vtt_suffix_counterexample:
  "\<not> prefix WEBVTT srt_cue \<and> py_in arrow srt_cue \<and>
   parse_subtitle_file sample_tables (one_file ''talk.vtt'' srt_cue) (path_of ''talk.vtt'' ''.vtt'')
     fmt_auto = Inr ([ustr_of ''Hi''], fmt_vtt) \<and>
   \<not> prefix WEBVTT (0x20 # vtt_cue) \<and> py_in arrow (0x20 # vtt_cue) \<and>
   parse_subtitle_file sample_tables (one_file ''talk.txt'' (0x20 # vtt_cue))
     (path_of ''talk.txt'' ''.txt'') fmt_auto = Inr ([ustr_of ''Hi''], fmt_vtt) \<and>
   fmt_vtt \<noteq> fmt_srt"
proof -
  note t = ascii_tables [OF sample_tables_ascii]
  have 1: "\<not> prefix WEBVTT srt_cue" by (simp add: srt_cue_def WEBVTT_def string_eval)
  have 2: "py_in arrow srt_cue" by (simp add: srt_cue_def arrow_def string_eval)
  have b: "re_split blank_lines srt_cue = [srt_cue]"
    by (simp add: srt_cue_def string_eval regex_eval blank_lines_def)
  have v: "vtt_block sample_tables srt_cue = Inr [ustr_of ''Hi'']"
    by (simp add: srt_cue_def string_eval regex_eval parse_eval t)
  have d: "detect_format sample_tables fmt_auto (ustr_of ''.vtt'') n = fmt_vtt" for n
    by (simp add: detect_format_def Let_def string_eval t)
  have 3: "parse_subtitle_file sample_tables (one_file ''talk.vtt'' srt_cue)
     (path_of ''talk.vtt'' ''.vtt'') fmt_auto = Inr ([ustr_of ''Hi''], fmt_vtt)"
    by (simp add: parse_subtitle_file_def one_file_def path_of_def srt_cue_normalized b d v
        bind_result_def Let_def)
  have 4: "\<not> prefix WEBVTT (0x20 # vtt_cue)" by (simp add: WEBVTT_def string_eval)
  have 5: "py_in arrow (0x20 # vtt_cue)"
    by (simp add: vtt_cue_def vtt_body_def arrow_def string_eval)
  have n': "normalize_newlines (0x20 # vtt_cue) = 0x20 # vtt_cue"
    by (simp add: vtt_cue_def vtt_body_def normalize_newlines_def string_eval)
  have b': "re_split blank_lines (0x20 # vtt_cue) = [0x20 # WEBVTT, vtt_body]"
    by (simp add: vtt_cue_def vtt_body_def WEBVTT_def string_eval regex_eval blank_lines_def)
  have v0: "vtt_block sample_tables (0x20 # WEBVTT) = Inr []"
    by (simp add: string_eval regex_eval parse_eval t)
  have v1: "vtt_block sample_tables vtt_body = Inr [ustr_of ''Hi'']"
    by (simp add: vtt_body_def string_eval regex_eval parse_eval t)
  have d': "detect_format sample_tables fmt_auto (ustr_of ''.txt'') (0x20 # vtt_cue) = fmt_vtt"
    by (simp add: detect_format_def Let_def vtt_cue_def vtt_body_def WEBVTT_def string_eval t)
  have 6: "parse_subtitle_file sample_tables (one_file ''talk.txt'' (0x20 # vtt_cue))
     (path_of ''talk.txt'' ''.txt'') fmt_auto = Inr ([ustr_of ''Hi''], fmt_vtt)"
    unfolding parse_subtitle_file_def one_file_def path_of_def
    by (simp add: n' b' d' v0 v1 bind_result_def Let_def)
  from 1 2 3 4 5 6 fmt_codes_distinct show ?thesis by blast
qed

text \<open>
  C4 at captions that differ in case outside ASCII (U+00C9, U+00E9, U+00C9: one caption is
  kept), at Music, Words, Music, and at Music, MUSIC, Words.
\<close>

theorem remove_duplicates_chained_witness:
  "str_lower sample_tables [0xc9] = str_lower sample_tables [0xe9] \<and>
   remove_duplicates sample_tables [[0xc9], [0xe9], [0xc9]] = Inr [[0xc9]] \<and>
   str_lower sample_tables (ustr_of ''Music'') \<noteq> str_lower sample_tables (ustr_of ''Words'') \<and>
   remove_duplicates sample_tables [ustr_of ''Music'', ustr_of ''Words'', ustr_of ''Music''] =
     Inr [ustr_of ''Music'', ustr_of ''Words'', ustr_of ''Music''] \<and>
   remove_duplicates sample_tables [ustr_of ''Music'', ustr_of ''MUSIC'', ustr_of ''Words''] =
     Inr [ustr_of ''Music'', ustr_of ''Words'']"
proof -
  have l: "str_lower sample_tables s = map latin1_lower s" for s
    by (simp add: sample_tables_def)
  have e: "str_lower sample_tables [0xc9] = str_lower sample_tables [0xe9]"
    by (simp add: l latin1_lower_def latin1_isupper_def)
  have h: "str_lower sample_tables (ustr_of ''Music'') \<noteq> str_lower sample_tables (ustr_of ''Words'')"
    by (simp add: l latin1_lower_def latin1_isupper_def ustr_of_def)
  from remove_duplicates_chained
    [of sample_tables "[[0xc9], [0xe9]]" "[0xc9]" "ustr_of ''Music''" "ustr_of ''Words''"] h
  obtain kept where k: "remove_duplicates sample_tables [[0xc9], [0xe9]] = Inr kept"
    and c: "remove_duplicates sample_tables ([[0xc9], [0xe9]] @ [[0xc9]]) =
       Inr (if kept \<noteq> [] \<and> str_lower sample_tables [0xc9] = str_lower sample_tables (last kept)
            then kept else kept @ [[0xc9]])"
    and a: "remove_duplicates sample_tables [ustr_of ''Music'', ustr_of ''Words'', ustr_of ''Music''] =
     Inr [ustr_of ''Music'', ustr_of ''Words'', ustr_of ''Music'']" by blast
  have "remove_duplicates sample_tables [[0xc9], [0xe9]] = Inr [[0xc9]]"
    by (simp add: remove_duplicates_def string_eval l latin1_lower_def latin1_isupper_def)
  with k have "kept = [[0xc9]]" by simp
  with c have d: "remove_duplicates sample_tables [[0xc9], [0xe9], [0xc9]] = Inr [[0xc9]]"
    by simp
  have b: "remove_duplicates sample_tables [ustr_of ''Music'', ustr_of ''MUSIC'', ustr_of ''Words''] =
     Inr [ustr_of ''Music'', ustr_of ''Words'']"
    by (simp add: remove_duplicates_def string_eval l latin1_lower_def latin1_isupper_def)
  from e d h a b show ?thesis by blast
qed


lemma empty_file_converted:
  "convert_subtitles_to_text sample_tables (one_file ''a.vtt'' []) (path_of ''a.vtt'' ''.vtt'') None
     lang_en fmt_auto =
     Inr ([], (one_file ''a.vtt'' [])
                \<lparr>printed := [[0x1f4cb] @ ustr_of '' Detected subtitle format: vtt'']\<rparr>)"
proof -
  have b: "re_split blank_lines (normalize_newlines []) = [[]]"
    by (simp add: re_split_def normalize_newlines_def py_replace_def blank_lines_def seqs_def
        match_at_def)
  have v: "vtt_block sample_tables [] = Inr []"
    by (simp add: vtt_block_def nonblank_lines_def py_strip_def py_lstrip_def py_rstrip_def)
  have d: "detect_format sample_tables fmt_auto (ustr_of ''.vtt'') n = fmt_vtt" for n
    by (simp add: detect_format_def Let_def string_eval ascii_tables [OF sample_tables_ascii])
  have p: "parse_subtitle_file sample_tables (one_file ''a.vtt'' []) (path_of ''a.vtt'' ''.vtt'')
      fmt_auto = Inr ([], fmt_vtt)"
    by (simp add: parse_subtitle_file_def one_file_def path_of_def b v d bind_result_def Let_def)
  have r: "resolve_language lang_en captions w = (lang_en, w)" for captions w
    using lang_codes_distinct by (simp add: resolve_language_def)
  show ?thesis
    unfolding convert_unfold p
    by (simp add: bind_result_def finished_text_nil r write_output_def print_line_def
        one_file_def fmt_vtt_def ustr_of_def)
qed

text \<open>
  C9 at an empty file: a run after other output and with an output path, and a second
  run in the world the first run left.
\<close>

theorem conversion_deterministic_witness:
  "map_sum id fst
     (convert_subtitles_to_text sample_tables (one_file ''a.vtt'' []) (path_of ''a.vtt'' ''.vtt'')
        None lang_en fmt_auto) =
   map_sum id fst
     (convert_subtitles_to_text sample_tables
        ((one_file ''a.vtt'' [])\<lparr>printed := [ustr_of ''earlier output'']\<rparr>)
        (path_of ''a.vtt'' ''.vtt'') (Some (ustr_of ''a.txt'')) lang_en fmt_auto) \<and>
   (\<exists>w''. convert_subtitles_to_text sample_tables
        ((one_file ''a.vtt'' [])\<lparr>printed := [[0x1f4cb] @ ustr_of '' Detected subtitle format: vtt'']\<rparr>)
        (path_of ''a.vtt'' ''.vtt'') None lang_en fmt_auto = Inr ([], w''))"
proof -
  let ?w1 = "one_file ''a.vtt'' []"
  let ?w2 = "(one_file ''a.vtt'' [])\<lparr>printed := [ustr_of ''earlier output'']\<rparr>"
  let ?w1' = "(one_file ''a.vtt'' [])\<lparr>printed := [[0x1f4cb] @ ustr_of '' Detected subtitle format: vtt'']\<rparr>"
  let ?p = "path_of ''a.vtt'' ''.vtt''"
  have h1: "files ?w1 (path_name ?p) = files ?w2 (path_name ?p)" by simp
  have h1': "writes_ok ?w1 None = writes_ok ?w2 (Some (ustr_of ''a.txt''))"
    by (simp add: writes_ok_def one_file_def)
  have h2: "convert_subtitles_to_text sample_tables ?w1 ?p None lang_en fmt_auto = Inr ([], ?w1')"
    by (rule empty_file_converted)
  have h3: "files ?w1' (path_name ?p) = files ?w1 (path_name ?p)" by simp
  from conversion_deterministic
    [of ?w1 ?p ?w2 None "Some (ustr_of ''a.txt'')" sample_tables lang_en fmt_auto "[]" ?w1']
    h1 h1' h2 h3
  show ?thesis by blast
qed



text \<open>
  C10 at a caption with two speaker labels, where the text between the labels stays, at
  a caption with an unclosed bracket, and at a caption with a label and a parenthesized
  annotation.
\<close>

theorem bracketed_text_removed_witness:
  "remove_annotations (ustr_of ''[John] Hi [Mary] there'') lang_en =
     Inr (strip_brackets (ustr_of ''[John] Hi [Mary] there'')) \<and>
   strip_brackets (ustr_of ''[John] Hi [Mary] there'') = ustr_of '' Hi  there'' \<and>
   remove_annotations (ustr_of ''[John] Hi [Mary] there'') lang_en = Inr (ustr_of '' Hi  there'') \<and>
   remove_annotations (ustr_of ''[John] Hi [there'') lang_zh_tw = Inr (ustr_of '' Hi [there'') \<and>
   remove_annotations (ustr_of ''[John] (music) hi'') lang_en = Inr (ustr_of ''  hi'')"
proof -
  have h: "0x0a \<notin> set (ustr_of ''[John] Hi [Mary] there'')" by (simp add: ustr_of_def)
  have p: "0x28 \<notin> set (ustr_of ''[John] Hi [Mary] there'')" by (simp add: ustr_of_def)
  from bracketed_text_removed [OF h, of lang_en] p
  have a: "remove_annotations (ustr_of ''[John] Hi [Mary] there'') lang_en =
     Inr (strip_brackets (ustr_of ''[John] Hi [Mary] there''))" by auto
  have b: "strip_brackets (ustr_of ''[John] Hi [Mary] there'') = ustr_of '' Hi  there''"
    by (simp add: strip_brackets_def ustr_of_def)
  have h': "0x0a \<notin> set (ustr_of ''[John] Hi [there'')" by (simp add: ustr_of_def)
  have p': "0x28 \<notin> set (ustr_of ''[John] Hi [there'')" by (simp add: ustr_of_def)
  from bracketed_text_removed [OF h', of lang_zh_tw] p'
  have c: "remove_annotations (ustr_of ''[John] Hi [there'') lang_zh_tw =
     Inr (strip_brackets (ustr_of ''[John] Hi [there''))" by auto
  have d: "strip_brackets (ustr_of ''[John] Hi [there'') = ustr_of '' Hi [there''"
    by (simp add: strip_brackets_def ustr_of_def)
  have e: "remove_annotations (ustr_of ''[John] (music) hi'') lang_en = Inr (ustr_of ''  hi'')"
    by (simp add: string_eval regex_eval profile_eval remove_annotations_def)
  from a b c d e show ?thesis by simp
qed

end
